theory Spec2Isabelle
  imports Complex_Main "HOL-Library.Sublist" "HOL-Library.Word"
begin

section \<open>JavaScript strings\<close>

text \<open>
  A JavaScript string is a sequence of UTF-16 code units. The model uses \<^typ>\<open>string\<close>
  (a list of 8-bit characters) and reads a character as the code unit with the same
  number, so it covers the strings whose code units are below 256 (ASCII and Latin-1).
  \<open>length\<close> is then \<open>String.prototype.length\<close>, \<open>take n\<close> is \<open>substring(0, n)\<close>.
\<close>

text \<open>White space of \<open>String.prototype.trim\<close> among the code units below 256:
  TAB, LF, VT, FF, CR, SPACE and NO-BREAK SPACE.\<close>

definition is_js_space :: "char \<Rightarrow> bool" where
  "is_js_space c = (of_char c \<in> {9, 10, 11, 12, 13, 32, 160 :: nat})"

definition trim :: "string \<Rightarrow> string" where
  "trim s = rev (dropWhile is_js_space (rev (dropWhile is_js_space s)))"

text \<open>\<open>toLowerCase\<close> on code units below 256: A-Z and the Latin-1 capitals
  (U+00C0 .. U+00DE without the multiplication sign U+00D7) move up by 32.\<close>

definition lower_char :: "char \<Rightarrow> char" where
  "lower_char c =
     (let n = (of_char c :: nat) in
      if (65 \<le> n \<and> n \<le> 90) \<or> (192 \<le> n \<and> n \<le> 222 \<and> n \<noteq> 215)
      then char_of (n + 32) else c)"

definition toLowerCase :: "string \<Rightarrow> string" where
  "toLowerCase s = map lower_char s"

text \<open>\<open>s.includes(w)\<close>: \<open>w\<close> occurs in \<open>s\<close> as a contiguous run; the empty string
  occurs in every string.\<close>

fun str_includes :: "string \<Rightarrow> string \<Rightarrow> bool" where
  "str_includes [] w = (w = [])"
| "str_includes (c # cs) w = (prefix w (c # cs) \<or> str_includes cs w)"

text \<open>\<open>s.split(sep)\<close> for a string separator: the text is cut at every occurrence of
  \<open>sep\<close>, found from left to right without overlap; \<open>acc\<close> holds the current fragment
  reversed. With the empty separator JavaScript returns the code units one by one.\<close>

fun split_from :: "string \<Rightarrow> string \<Rightarrow> string \<Rightarrow> string list" where
  "split_from sep acc [] = [rev acc]"
| "split_from sep acc (c # cs) =
     (if prefix sep (c # cs)
      then rev acc # split_from sep [] (drop (length sep - 1) cs)
      else split_from sep (c # acc) cs)"

definition split :: "string \<Rightarrow> string \<Rightarrow> string list" where
  "split s sep = (if sep = [] then map (\<lambda>c. [c]) s else split_from sep [] s)"

text \<open>Decimal rendering of a number inside a template literal.\<close>

definition digit_char :: "nat \<Rightarrow> char" where
  "digit_char d = char_of (48 + d)"

fun show_nat :: "nat \<Rightarrow> string" where
  "show_nat n = (if n < 10 then [digit_char n] else show_nat (n div 10) @ [digit_char (n mod 10)])"

declare show_nat.simps [simp del]

section \<open>The model service and the world\<close>

text \<open>
  \<open>genAI.models.generateContent\<close> is the external model service. A call either throws
  an error object (its \<open>status\<close> field may be absent) or returns a response. Of a
  response the code reads \<open>text\<close> (the field \<open>res_text\<close>; it may be undefined) and, of
  each candidate, the parts of its content (a candidate may lack its content;
  \<open>parts || []\<close> is folded into the list).
  A part carries text or inline data; the inline data is modelled by the bytes its
  base64 text decodes to, the empty list standing for a missing or empty \<open>data\<close>.
\<close>

type_synonym byte = "8 word"

datatype error =
    ServiceError (status: "int option") (message: string)
  | AllModelsFailed
  | ImageError string

text \<open>\<open>err.status\<close>; the error made by \<open>new Error(...)\<close> has no status.\<close>

fun err_status :: "error \<Rightarrow> int option" where
  "err_status (ServiceError st msg) = st"
| "err_status AllModelsFailed = None"
| "err_status (ImageError msg) = None"

datatype part = TextPart string | InlineData "byte list"

record response =
  res_text :: "string option"
  candidates :: "part list option list"

text \<open>
  The service is an oracle: \<open>svc model k\<close> is the outcome of the \<open>k\<close>-th request
  (counting from 0) sent to \<open>model\<close>. The request payload (prompt, photo, MIME type)
  is passed on unchanged by the code and decides nothing else, so it is left out.
  The world holds what the code can observe or change: the files under the media root,
  the number of requests sent to each model, and the log of requests, pacing delays
  (milliseconds) and file writes, oldest first.
\<close>

type_synonym service = "string \<Rightarrow> nat \<Rightarrow> error + response"

datatype event = Request string | Sleep nat | Write string

record world =
  files :: "string \<rightharpoonup> byte list"
  calls :: "string \<Rightarrow> nat"
  trace :: "event list"

definition generateContent :: "service \<Rightarrow> string \<Rightarrow> world \<Rightarrow> (error + response) \<times> world" where
  "generateContent svc model w =
     (svc model (calls w model),
      w\<lparr>calls := (calls w)(model := Suc (calls w model)), trace := trace w @ [Request model]\<rparr>)"

definition sleep :: "nat \<Rightarrow> world \<Rightarrow> world" where
  "sleep ms w = w\<lparr>trace := trace w @ [Sleep ms]\<rparr>"

section \<open>Resilient invoker: callGemini\<close>

definition MODELS :: "string list" where
  "MODELS = [''gemini-2.0-flash'', ''gemini-2.0-flash-lite'', ''gemma-3-27b-it'', ''gemma-3-12b-it'']"

text \<open>
  The inner loop \<open>for (attempt = 0; attempt < 2; attempt++)\<close> for one model. It ends
  with \<open>Inl response\<close> when the function returns, and with \<open>Inr lastErr\<close> when the loop
  is left (by \<open>break\<close> or by its bound) and the next model is tried.
\<close>

function tier_attempts ::
  "service \<Rightarrow> string \<Rightarrow> nat \<Rightarrow> error option \<Rightarrow> world \<Rightarrow> (response + error option) \<times> world" where
  "tier_attempts svc model attempt lastErr w =
     (if attempt < 2 then
        (case generateContent svc model w of
           (Inr response, w1) \<Rightarrow> (Inl response, w1)
         | (Inl err, w1) \<Rightarrow>
             if err_status err = Some 429 then
               if attempt = 0 then tier_attempts svc model (attempt + 1) (Some err) (sleep 2000 w1)
               else (Inr (Some err), w1)
             else (Inr (Some err), w1))
      else (Inr lastErr, w))"
  by pat_completeness auto
termination
  by (relation "measure (\<lambda>(svc, model, attempt, lastErr, w). 2 - attempt)") auto

text \<open>The outer loop over the models, and \<open>throw lastErr || new Error(...)\<close> after it.\<close>

fun callGemini_tiers ::
  "service \<Rightarrow> string list \<Rightarrow> error option \<Rightarrow> world \<Rightarrow> (error + response) \<times> world" where
  "callGemini_tiers svc [] lastErr w =
     (Inl (case lastErr of Some e \<Rightarrow> e | None \<Rightarrow> AllModelsFailed), w)"
| "callGemini_tiers svc (model # rest) lastErr w =
     (case tier_attempts svc model 0 lastErr w of
        (Inl response, w1) \<Rightarrow> (Inr response, w1)
      | (Inr lastErr', w1) \<Rightarrow> callGemini_tiers svc rest lastErr' w1)"

definition callGemini :: "service \<Rightarrow> world \<Rightarrow> (error + response) \<times> world" where
  "callGemini svc w = callGemini_tiers svc MODELS None w"

section \<open>Person scanner: describePersons\<close>

text \<open>
  The parsing of \<open>_describePersons\<close> (the name cannot start with an underscore here):
  \<open>describe_text\<close> is the body of the \<open>try\<close> block after the call, applied to \<open>res.text\<close>.
\<close>

definition describe_text :: "string option \<Rightarrow> string list" where
  "describe_text raw =
     (let text = trim (case raw of Some t \<Rightarrow> t | None \<Rightarrow> []) in
      if str_includes text ''NO_PERSON'' \<or> length text < 20 then []
      else
        let persons = filter (\<lambda>s. length s > 20) (map trim (split text ''---PERSON---'')) in
        if persons = [] \<and> length text > 20 then [text] else persons)"

text \<open>The whole function: every error of the call is caught and gives no person.\<close>

definition describePersons :: "service \<Rightarrow> world \<Rightarrow> string list \<times> world" where
  "describePersons svc w =
     (case callGemini svc w of
        (Inr res, w1) \<Rightarrow> (describe_text (res_text res), w1)
      | (Inl e, w1) \<Rightarrow> ([], w1))"

section \<open>Background segmenter: removeWhiteBackground\<close>

text \<open>
  The decoded image: \<open>info.width\<close>, \<open>info.height\<close>, \<open>info.channels\<close> and the raw buffer
  \<open>data\<close>. Buffers and the mask are typed arrays: a read outside the array gives
  \<open>undefined\<close> (here \<open>None\<close>) and a write outside is ignored, like \<open>xs[i := v]\<close>.
\<close>

record image =
  width :: nat
  height :: nat
  channels :: nat
  data :: "byte list"

definition byte_at :: "byte list \<Rightarrow> nat \<Rightarrow> int option" where
  "byte_at d i = (if i < length d then Some (uint (d ! i)) else None)"

definition WHITE_THRESHOLD :: real where
  "WHITE_THRESHOLD = 42"

text \<open>
  \<open>isWhitish(idx)\<close>. An undefined channel makes the distance \<open>NaN\<close> and the comparison
  false. The radicand is an integer of at most \<open>3 * 255\<^sup>2\<close>, so the rounded square root
  of the code is below 42 exactly when the real one is.
\<close>

definition isWhitish :: "byte list \<Rightarrow> nat \<Rightarrow> bool" where
  "isWhitish d idx =
     (case (byte_at d idx, byte_at d (idx + 1), byte_at d (idx + 2)) of
        (Some r, Some g, Some b) \<Rightarrow>
          sqrt (real_of_int ((255 - r)\<^sup>2 + (255 - g)\<^sup>2 + (255 - b)\<^sup>2)) < WHITE_THRESHOLD
      | _ \<Rightarrow> False)"

text \<open>The mask (\<open>msk\<close>): 0 = not visited, 1 = background white, 2 = seen and not background.\<close>

definition mask_at :: "nat list \<Rightarrow> int \<Rightarrow> nat option" where
  "mask_at msk pos = (if 0 \<le> pos \<and> nat pos < length msk then Some (msk ! nat pos) else None)"

text \<open>The queue as first filled: both loops over the four borders, in push order.\<close>

definition seeds :: "nat \<Rightarrow> nat \<Rightarrow> int list" where
  "seeds w h =
     concat (map (\<lambda>x. [int x, (int h - 1) * int w + int x]) [0..<w]) @
     concat (map (\<lambda>y. [int y * int w, int y * int w + int w - 1]) [0..<h])"

text \<open>
  The 4-neighbourhood inside the image, in the order left, right, up, down, with
  \<open>x = pos % width\<close> and \<open>y = Math.floor(pos / width)\<close>; the code computes it for
  positions inside the image only, where \<open>%\<close> is \<open>mod\<close>.
\<close>

definition neighbors :: "nat \<Rightarrow> nat \<Rightarrow> int \<Rightarrow> int list" where
  "neighbors w h pos =
     (let x = pos mod int w; y = pos div int w in
      (if x > 0 then [pos - 1] else []) @
      (if x < int w - 1 then [pos + 1] else []) @
      (if y > 0 then [pos - int w] else []) @
      (if y < int h - 1 then [pos + int w] else []))"

text \<open>
  The loop \<open>while (head < queue.length)\<close>. The first argument of the recursion is the
  pending part of the queue, \<open>queue[head..]\<close>: taking \<open>queue[head++]\<close> removes its first
  element and \<open>queue.push\<close> appends at its end.
\<close>

function flood :: "image \<Rightarrow> int list \<Rightarrow> nat list \<Rightarrow> nat list" where
  "flood im [] msk = msk"
| "flood im (pos # queue) msk =
     (if pos < 0 \<or> pos \<ge> int (width im * height im) then flood im queue msk
      else if mask_at msk pos \<noteq> Some 0 then flood im queue msk
      else if \<not> isWhitish (data im) (nat pos * channels im)
        then flood im queue (msk[nat pos := 2])
      else
        flood im
          (queue @ filter (\<lambda>n. mask_at (msk[nat pos := 1]) n = Some 0)
                     (neighbors (width im) (height im) pos))
          (msk[nat pos := 1]))"
  by pat_completeness auto
termination
proof (relation "measure (\<lambda>(im, queue, msk). 5 * count_list msk 0 + length queue)")
  have marked: "Suc (count_list (m[i := v]) (0::nat)) = count_list m 0"
    if "i < length m" and "m ! i = 0" and "v \<noteq> 0" for m :: "nat list" and i v :: nat
    using that
  proof (induction m arbitrary: i)
    case Nil
    then show ?case by simp
  next
    case (Cons a m)
    then show ?case by (cases i) auto
  qed
  have visited: "nat pos < length msk \<and> msk ! nat pos = 0"
    if "\<not> mask_at msk pos \<noteq> Some 0" for msk pos
    using that by (auto simp: mask_at_def split: if_splits)
  fix im :: image and pos :: int and queue :: "int list" and msk :: "nat list"
  show "wf (measure (\<lambda>(im, queue, msk). 5 * count_list msk 0 + length queue))"
    by simp
  show skip: "((im, queue, msk), (im, pos # queue, msk))
      \<in> measure (\<lambda>(im, queue, msk). 5 * count_list msk 0 + length queue)"
    by simp
  show "((im, queue, msk), (im, pos # queue, msk))
      \<in> measure (\<lambda>(im, queue, msk). 5 * count_list msk 0 + length queue)"
    by (rule skip)
  show "((im, queue, msk[nat pos := 2]), (im, pos # queue, msk))
      \<in> measure (\<lambda>(im, queue, msk). 5 * count_list msk 0 + length queue)"
    if "\<not> mask_at msk pos \<noteq> Some 0"
  proof -
    have "Suc (count_list (msk[nat pos := 2]) 0) = count_list msk 0"
      using visited[OF that] by (intro marked) auto
    then show ?thesis by simp
  qed
  show "((im, queue @ filter (\<lambda>n. mask_at (msk[nat pos := 1]) n = Some 0)
                  (neighbors (width im) (height im) pos), msk[nat pos := 1]),
         (im, pos # queue, msk))
      \<in> measure (\<lambda>(im, queue, msk). 5 * count_list msk 0 + length queue)"
    if "\<not> mask_at msk pos \<noteq> Some 0"
  proof -
    have c: "Suc (count_list (msk[nat pos := 1]) 0) = count_list msk 0"
      using visited[OF that] by (intro marked) auto
    have "length (neighbors (width im) (height im) pos) \<le> 4"
      by (simp add: neighbors_def Let_def)
    then have "length (filter (\<lambda>n. mask_at (msk[nat pos := 1]) n = Some 0)
        (neighbors (width im) (height im) pos)) \<le> 4"
      using length_filter_le le_trans by blast
    then show ?thesis using c by simp
  qed
qed

declare flood.simps [simp del]

text \<open>The two passes over the mask that write the alpha channel.\<close>

definition clear_background :: "image \<Rightarrow> nat list \<Rightarrow> byte list \<Rightarrow> byte list" where
  "clear_background im msk d =
     foldl (\<lambda>d pos. if mask_at msk (int pos) = Some 1 then d[pos * channels im + 3 := 0] else d)
       d [0..<width im * height im]"

definition soften_edges :: "image \<Rightarrow> nat list \<Rightarrow> byte list \<Rightarrow> byte list" where
  "soften_edges im msk d =
     foldl (\<lambda>d pos.
         if mask_at msk (int pos) \<noteq> Some 1 then d
         else if list_ex (\<lambda>n. mask_at msk n \<noteq> Some 1) (neighbors (width im) (height im) (int pos))
           then d[pos * channels im + 3 := 60]
         else d)
       d [0..<width im * height im]"

definition floodFill :: "image \<Rightarrow> nat list" where
  "floodFill im =
     flood im (seeds (width im) (height im)) (replicate (width im * height im) 0)"

text \<open>The work on the raw buffer between decoding and encoding.\<close>

definition segment :: "image \<Rightarrow> image" where
  "segment im =
     (let msk = floodFill im
      in im\<lparr>data := soften_edges im msk (clear_background im msk (data im))\<rparr>)"

subsection \<open>What the flood fill is meant to compute\<close>

text \<open>
  Pixel positions are row-major: \<open>pos = y * width + x\<close>. A pixel is on the border when
  it lies in the first or last row or column. The background is the least set that holds
  the whitish border pixels and every whitish 4-neighbour of one of its pixels; a pixel
  is reached when it is on the border or a 4-neighbour of a background pixel.
\<close>

definition in_image :: "image \<Rightarrow> int \<Rightarrow> bool" where
  "in_image im p \<longleftrightarrow> 0 \<le> p \<and> p < int (width im * height im)"

definition on_border :: "image \<Rightarrow> int \<Rightarrow> bool" where
  "on_border im p \<longleftrightarrow>
     in_image im p \<and>
     (p mod int (width im) = 0 \<or> p mod int (width im) = int (width im) - 1 \<or>
      p div int (width im) = 0 \<or> p div int (width im) = int (height im) - 1)"

definition whitish :: "image \<Rightarrow> int \<Rightarrow> bool" where
  "whitish im p = isWhitish (data im) (nat p * channels im)"

inductive_set background :: "image \<Rightarrow> int set" for im :: image where
  seed: "on_border im p \<Longrightarrow> whitish im p \<Longrightarrow> p \<in> background im"
| spread: "p \<in> background im \<Longrightarrow> n \<in> set (neighbors (width im) (height im) p) \<Longrightarrow>
     whitish im n \<Longrightarrow> n \<in> background im"

definition reached :: "image \<Rightarrow> int \<Rightarrow> bool" where
  "reached im n \<longleftrightarrow>
     on_border im n \<or> (\<exists>p \<in> background im. n \<in> set (neighbors (width im) (height im) p))"

text \<open>
  The calls into the image library are parameters: \<open>decode\<close> is
  \<open>sharp(imgBuffer).ensureAlpha().raw().toBuffer(...)\<close> and \<open>encode\<close> is the chain
  \<open>png, trim, toBuffer, resize, png, toBuffer\<close>; each gives \<open>Inl\<close> when the library throws.
\<close>

record codec =
  decode :: "byte list \<Rightarrow> error + image"
  encode :: "image \<Rightarrow> error + byte list"

definition removeWhiteBackground_try :: "codec \<Rightarrow> byte list \<Rightarrow> error + byte list" where
  "removeWhiteBackground_try cd imgBuffer =
     (case decode cd imgBuffer of
        Inl e \<Rightarrow> Inl e
      | Inr im \<Rightarrow> encode cd (segment im))"

text \<open>The whole function: the \<open>catch\<close> block returns the input.\<close>

definition removeWhiteBackground :: "codec \<Rightarrow> byte list \<Rightarrow> error + byte list" where
  "removeWhiteBackground cd imgBuffer =
     (case removeWhiteBackground_try cd imgBuffer of
        Inr resized \<Rightarrow> Inr resized
      | Inl e \<Rightarrow> Inr imgBuffer)"

section \<open>Files\<close>

text \<open>
  The file system is the map \<open>files\<close> from paths to contents: a path exists when it is
  in the map, reading an existing path gives its content and writing stores it. Reads
  of existing paths and writes are taken to succeed (the uploads directory is created
  when the server starts). Paths are taken relative to the directory of the server:
  \<open>path.join(__dirname, 'public', p)\<close> is \<open>public/p\<close> and \<open>UPLOADS_DIR\<close> is
  \<open>public/uploads\<close>.
\<close>

definition strip_slash :: "string \<Rightarrow> string" where
  "strip_slash p = (case p of c # cs \<Rightarrow> if c = CHR ''/'' then cs else p | [] \<Rightarrow> [])"

definition public_path :: "string \<Rightarrow> string" where
  "public_path p = ''public/'' @ strip_slash p"

definition existsSync :: "world \<Rightarrow> string \<Rightarrow> bool" where
  "existsSync w path = (files w path \<noteq> None)"

definition UPLOADS_DIR :: string where
  "UPLOADS_DIR = ''public/uploads''"

definition writeFileSync :: "string \<Rightarrow> byte list \<Rightarrow> world \<Rightarrow> world" where
  "writeFileSync path content w =
     w\<lparr>files := (files w)(path \<mapsto> content), trace := trace w @ [Write path]\<rparr>"

section \<open>Person scanner: scanPersonsInPhotos\<close>

definition MAX_PERSONS :: nat where
  "MAX_PERSONS = 3"

record person =
  photoIndex :: nat
  photoPath :: string
  personLabel :: string
  description :: string

text \<open>The first loop: the photos that exist, with their index in \<open>imagePaths\<close>.\<close>

definition validPhotos :: "world \<Rightarrow> string list \<Rightarrow> (nat \<times> string) list" where
  "validPhotos w imagePaths =
     filter (\<lambda>(i, p). existsSync w (public_path p)) (zip [0..<length imagePaths] imagePaths)"

text \<open>\<open>desc.slice(0, MAX_PERSONS).map((d, i) => ...)\<close> of the single-photo branch.\<close>

definition label_persons :: "nat \<Rightarrow> string \<Rightarrow> string list \<Rightarrow> person list" where
  "label_persons idx path ds =
     map (\<lambda>(i, d). \<lparr>photoIndex = idx, photoPath = path,
                     personLabel = ''person'' @ show_nat (i + 1), description = d\<rparr>)
       (zip [0..<length ds] ds)"

text \<open>
  The similarity test of the multi-photo branch: \<open>a\<close> comes from the accepted
  description, \<open>b\<close> from the new one; the words of \<open>a\<close> that occur in \<open>b\<close> are counted.
\<close>

definition overlap :: "string \<Rightarrow> string \<Rightarrow> nat" where
  "overlap existing d =
     (let a = toLowerCase (take 60 existing);
          b = toLowerCase (take 60 d)
      in length (filter (\<lambda>w. str_includes b w) (split a '' '')))"

definition isDuplicate :: "person list \<Rightarrow> string \<Rightarrow> bool" where
  "isDuplicate allPersons d = list_ex (\<lambda>existing. overlap (description existing) d > 5) allPersons"

text \<open>The loop \<open>for (const d of desc)\<close> for one photo.\<close>

fun add_descriptions :: "nat \<Rightarrow> string \<Rightarrow> string list \<Rightarrow> person list \<Rightarrow> person list" where
  "add_descriptions idx path [] allPersons = allPersons"
| "add_descriptions idx path (d # ds) allPersons =
     (if length allPersons \<ge> MAX_PERSONS then allPersons
      else if \<not> isDuplicate allPersons d
        then add_descriptions idx path ds
               (allPersons @ [\<lparr>photoIndex = idx, photoPath = path,
                   personLabel = ''person'' @ show_nat (length allPersons + 1), description = d\<rparr>])
      else add_descriptions idx path ds allPersons)"

text \<open>
  The loop \<open>for (const p of validPhotos)\<close>; \<open>k\<close> is \<open>validPhotos.indexOf(p)\<close> and \<open>n\<close> is
  \<open>validPhotos.length\<close>. An empty description list takes \<open>continue\<close> and skips the pause.
\<close>

fun scan_photos ::
  "service \<Rightarrow> (nat \<times> string) list \<Rightarrow> nat \<Rightarrow> nat \<Rightarrow> person list \<Rightarrow> world \<Rightarrow> person list \<times> world" where
  "scan_photos svc [] k n allPersons w = (allPersons, w)"
| "scan_photos svc (p # ps) k n allPersons w =
     (if length allPersons \<ge> MAX_PERSONS then (allPersons, w)
      else
        (case describePersons svc w of
           (desc, w1) \<Rightarrow>
             if desc = [] then scan_photos svc ps (k + 1) n allPersons w1
             else scan_photos svc ps (k + 1) n
                    (add_descriptions (fst p) (snd p) desc allPersons)
                    (if int k < int n - 1 then sleep 1500 w1 else w1)))"

definition scanPersonsInPhotos :: "service \<Rightarrow> string list \<Rightarrow> world \<Rightarrow> person list \<times> world" where
  "scanPersonsInPhotos svc imagePaths w =
     (case validPhotos w imagePaths of
        [] \<Rightarrow> ([], w)
      | [p] \<Rightarrow>
          (case describePersons svc w of
             (desc, w1) \<Rightarrow>
               if desc = [] then ([], w1)
               else (label_persons (fst p) (snd p) (take MAX_PERSONS desc), w1))
      | vp \<Rightarrow> scan_photos svc vp 0 (length vp) [] w)"

section \<open>Chibi synthesizer: generateSingleChibi\<close>

definition IMAGE_MODEL :: string where
  "IMAGE_MODEL = ''gemini-2.5-flash-image''"

definition MAX_RETRIES :: nat where
  "MAX_RETRIES = 2"

text \<open>
  The loop over the parts of the first candidate: the first part with inline data of at
  least 5000 bytes is taken; parts without data or with less are passed over.
\<close>

fun find_image :: "part list \<Rightarrow> byte list option" where
  "find_image [] = None"
| "find_image (TextPart t # ps) = find_image ps"
| "find_image (InlineData d # ps) =
     (if d = [] then find_image ps
      else if length d < 5000 then find_image ps
      else Some d)"

definition chibi_filename :: "string \<Rightarrow> nat \<Rightarrow> string" where
  "chibi_filename recordId personIndex = ''chibi-'' @ recordId @ ''-'' @ show_nat personIndex @ ''.png''"

text \<open>
  The body of the \<open>try\<close> block of one attempt. \<open>Inl e\<close> is an exception going to the
  \<open>catch\<close> block; otherwise the attempt returns a path from the function, leaves by
  \<open>continue\<close> (no candidate), or falls through (no image data). \<open>recordId\<close> is the record
  id as the template literal prints it; the prompt and the pose only enter the request.
\<close>

datatype attempt_result = Returned string | NoCandidate | NoImage

definition chibi_try ::
  "service \<Rightarrow> codec \<Rightarrow> string \<Rightarrow> nat \<Rightarrow> world \<Rightarrow> (error + attempt_result) \<times> world" where
  "chibi_try svc cd recordId personIndex w =
     (case generateContent svc IMAGE_MODEL w of
        (Inl e, w1) \<Rightarrow> (Inl e, w1)
      | (Inr response, w1) \<Rightarrow>
          (case candidates response of
             [] \<Rightarrow> (Inr NoCandidate, w1)
           | None # _ \<Rightarrow> (Inr NoCandidate, w1)
           | Some parts # _ \<Rightarrow>
               (case find_image parts of
                  None \<Rightarrow> (Inr NoImage, w1)
                | Some rawBuffer \<Rightarrow>
                    (case removeWhiteBackground cd rawBuffer of
                       Inl e \<Rightarrow> (Inl e, w1)
                     | Inr transparentBuffer \<Rightarrow>
                         (Inr (Returned (''/uploads/'' @ chibi_filename recordId personIndex)),
                          writeFileSync (UPLOADS_DIR @ ''/'' @ chibi_filename recordId personIndex)
                            transparentBuffer w1)))))"

text \<open>The pause at the end of the loop body.\<close>

definition retry_pause :: "nat \<Rightarrow> world \<Rightarrow> world" where
  "retry_pause attempt w = (if attempt < MAX_RETRIES then sleep 3000 w else w)"

text \<open>The loop \<open>for (attempt = 0; attempt <= MAX_RETRIES; attempt++)\<close> and \<open>return null\<close>.\<close>

function chibi_attempts ::
  "service \<Rightarrow> codec \<Rightarrow> string \<Rightarrow> nat \<Rightarrow> nat \<Rightarrow> world \<Rightarrow> string option \<times> world" where
  "chibi_attempts svc cd recordId personIndex attempt w =
     (if attempt \<le> MAX_RETRIES then
        (case chibi_try svc cd recordId personIndex w of
           (Inr (Returned path), w1) \<Rightarrow> (Some path, w1)
         | (Inr NoCandidate, w1) \<Rightarrow>
             chibi_attempts svc cd recordId personIndex (attempt + 1) w1
         | (Inr NoImage, w1) \<Rightarrow>
             chibi_attempts svc cd recordId personIndex (attempt + 1) (retry_pause attempt w1)
         | (Inl e, w1) \<Rightarrow>
             chibi_attempts svc cd recordId personIndex (attempt + 1)
               (retry_pause attempt (if err_status e = Some 429 then sleep 4000 w1 else w1)))
      else (None, w))"
  by pat_completeness auto
termination
  by (relation "measure (\<lambda>(svc, cd, recordId, personIndex, attempt, w). Suc MAX_RETRIES - attempt)")
    auto

declare chibi_attempts.simps [simp del]

definition generateSingleChibi ::
  "service \<Rightarrow> codec \<Rightarrow> string \<Rightarrow> string \<Rightarrow> string \<Rightarrow> nat \<Rightarrow> world \<Rightarrow> string option \<times> world" where
  "generateSingleChibi svc cd photoPath' personDescription recordId personIndex w =
     (if \<not> existsSync w (public_path photoPath') then (None, w)
      else chibi_attempts svc cd recordId personIndex 0 w)"

section \<open>Pipeline orchestrator: generateAllChibis\<close>

text \<open>The loop \<open>for (i = 0; i < persons.length; i++)\<close>; \<open>n\<close> is \<open>persons.length\<close>.\<close>

fun chibi_loop ::
  "service \<Rightarrow> codec \<Rightarrow> string \<Rightarrow> person list \<Rightarrow> nat \<Rightarrow> nat \<Rightarrow> string list \<Rightarrow> world
     \<Rightarrow> string list \<times> world" where
  "chibi_loop svc cd recordId [] i n results w = (results, w)"
| "chibi_loop svc cd recordId (p # ps) i n results w =
     (case generateSingleChibi svc cd (photoPath p) (description p) recordId (i + 1) w of
        (imgPath, w1) \<Rightarrow>
          chibi_loop svc cd recordId ps (i + 1) n
            (case imgPath of
               Some path \<Rightarrow> if path \<noteq> [] then results @ [path] else results
             | None \<Rightarrow> results)
            (if int i < int n - 1 then sleep 3000 w1 else w1))"

definition generateAllChibis ::
  "service \<Rightarrow> codec \<Rightarrow> string list \<Rightarrow> string \<Rightarrow> world \<Rightarrow> string list \<times> world" where
  "generateAllChibis svc cd imagePaths recordId w =
     (case scanPersonsInPhotos svc imagePaths w of
        (persons, w1) \<Rightarrow>
          if length persons = 0 then ([], w1)
          else chibi_loop svc cd recordId persons 0 (length persons) [] w1)"

text \<open>
  What the Synthesizer returned for each person of the roster, in order, in the run of
  the loop above (the world is threaded exactly as \<open>chibi_loop\<close> does).
\<close>

fun chibi_outcomes ::
  "service \<Rightarrow> codec \<Rightarrow> string \<Rightarrow> person list \<Rightarrow> nat \<Rightarrow> nat \<Rightarrow> world \<Rightarrow> string option list" where
  "chibi_outcomes svc cd recordId [] i n w = []"
| "chibi_outcomes svc cd recordId (p # ps) i n w =
     (case generateSingleChibi svc cd (photoPath p) (description p) recordId (i + 1) w of
        (imgPath, w1) \<Rightarrow>
          imgPath # chibi_outcomes svc cd recordId ps (i + 1) n
                      (if int i < int n - 1 then sleep 3000 w1 else w1))"

section \<open>Notions used in the statements\<close>

text \<open>
  The invariant of the fill loop, for the pending queue \<open>q\<close> and the mask \<open>m\<close>: the mask
  has one entry per pixel; a pixel marked 1 is in the background; a pixel marked 2 was
  reached and is not whitish; no other mark occurs; every pending position inside the
  image was reached; every border pixel, and every neighbour of a pixel marked 1, is
  already marked or still pending.
\<close>

definition fill_inv :: "image \<Rightarrow> int list \<Rightarrow> nat list \<Rightarrow> bool" where
  "fill_inv im q m \<longleftrightarrow>
     length m = width im * height im \<and>
     (\<forall>p. mask_at m p = Some 1 \<longrightarrow> p \<in> background im) \<and>
     (\<forall>p. mask_at m p = Some 2 \<longrightarrow> reached im p \<and> \<not> whitish im p) \<and>
     (\<forall>p v. mask_at m p = Some v \<longrightarrow> v \<le> 2) \<and>
     (\<forall>n \<in> set q. in_image im n \<longrightarrow> reached im n) \<and>
     (\<forall>p. on_border im p \<longrightarrow> mask_at m p \<noteq> Some 0 \<or> p \<in> set q) \<and>
     (\<forall>p. mask_at m p = Some 1 \<longrightarrow>
        (\<forall>n \<in> set (neighbors (width im) (height im) p). mask_at m n \<noteq> Some 0 \<or> n \<in> set q))"

text \<open>\<open>hasNonBg\<close> of the second alpha pass: some 4-neighbour is not background.\<close>

definition is_edge :: "image \<Rightarrow> nat list \<Rightarrow> nat \<Rightarrow> bool" where
  "is_edge im m pos =
     list_ex (\<lambda>n. mask_at m n \<noteq> Some 1) (neighbors (width im) (height im) (int pos))"

text \<open>
  The count as claim C4 words it, to compare with \<open>overlap\<close>: the words of the new
  description that occur in the accepted one.
\<close>

definition claimed_overlap :: "string \<Rightarrow> string \<Rightarrow> nat" where
  "claimed_overlap existing d =
     (let a = toLowerCase (take 60 existing);
          b = toLowerCase (take 60 d)
      in length (filter (\<lambda>w. str_includes a w) (split b '' '')))"

text \<open>No person of a roster has a count above 5 with a later person.\<close>

definition no_duplicates :: "person list \<Rightarrow> bool" where
  "no_duplicates ps \<longleftrightarrow>
     (\<forall>j < length ps. \<forall>i < j. overlap (description (ps ! i)) (description (ps ! j)) \<le> 5)"

text \<open>
  The image that the outcome of one request to the image model yields, if any: the
  first inline part of at least 5000 bytes among the parts of the first candidate.
\<close>

definition image_of :: "error + response \<Rightarrow> byte list option" where
  "image_of outcome =
     (case outcome of
        Inl e \<Rightarrow> None
      | Inr response \<Rightarrow>
          (case candidates response of
             Some parts # _ \<Rightarrow> find_image parts
           | _ \<Rightarrow> None))"

text \<open>The path returned for a person and the path the file is written to.\<close>

definition chibi_path :: "string \<Rightarrow> nat \<Rightarrow> string" where
  "chibi_path recordId personIndex = ''/uploads/'' @ chibi_filename recordId personIndex"

definition chibi_save_path :: "string \<Rightarrow> nat \<Rightarrow> string" where
  "chibi_save_path recordId personIndex = UPLOADS_DIR @ ''/'' @ chibi_filename recordId personIndex"

section \<open>Concrete inputs\<close>

text \<open>Worlds: no file and no request yet; one photo; two photos.\<close>

definition world0 :: world where
  "world0 = \<lparr>files = Map.empty, calls = (\<lambda>m. 0), trace = []\<rparr>"

definition one_photo :: world where
  "one_photo = \<lparr>files = [''public/uploads/a.jpg'' \<mapsto> [1]], calls = (\<lambda>m. 0), trace = []\<rparr>"

definition two_photos :: world where
  "two_photos = \<lparr>files = [''public/uploads/a.jpg'' \<mapsto> [1], ''public/uploads/b.jpg'' \<mapsto> [2]],
     calls = (\<lambda>m. 0), trace = []\<rparr>"

text \<open>Responses and errors of the service.\<close>

definition text_response :: "string \<Rightarrow> response" where
  "text_response t = \<lparr>res_text = Some t, candidates = []\<rparr>"

definition parts_response :: "part list \<Rightarrow> response" where
  "parts_response ps = \<lparr>res_text = None, candidates = [Some ps]\<rparr>"

definition rate_limit_error :: error where
  "rate_limit_error = ServiceError (Some 429) ''Too Many Requests''"

definition bad_request_error :: "string \<Rightarrow> error" where
  "bad_request_error m = ServiceError (Some 400) m"

text \<open>
  Services: one that always answers the same text; one whose first model is always
  rate-limited; one where every model rejects the request, naming itself; one whose
  \<open>k\<close>-th answer is the \<open>k\<close>-th text of a list.
\<close>

definition always_text :: "string \<Rightarrow> service" where
  "always_text t = (\<lambda>m k. Inr (text_response t))"

definition flash_limited :: service where
  "flash_limited =
     (\<lambda>m k. if m = ''gemini-2.0-flash'' then Inl rate_limit_error else Inr (text_response ''ok''))"

definition always_bad_request :: service where
  "always_bad_request = (\<lambda>m k. Inl (bad_request_error m))"

definition answers :: "string list \<Rightarrow> service" where
  "answers ts = (\<lambda>m k. if k < length ts then Inr (text_response (ts ! k)) else Inl rate_limit_error)"

text \<open>Descriptions of persons, and the first person of a roster.\<close>

definition woman_left :: string where
  "woman_left = ''Woman with wavy auburn hair, emerald raincoat, standing left''"

definition man_right :: string where
  "man_right = ''Man in a tan hat and an old coat, he is at the right side''"

definition woman_again :: string where
  "woman_again = ''Young woman with wavy auburn hair, emerald raincoat, smiling''"

definition person1 :: person where
  "person1 = \<lparr>photoIndex = 0, photoPath = ''/uploads/a.jpg'', personLabel = ''person1'',
     description = woman_left\<rparr>"

text \<open>
  Images: \<open>px r g b a\<close> is one RGBA pixel. The first image is a white 3 x 3 frame around
  a dark centre, with a black corner; the second has no whitish pixel (its second pixel
  is at distance exactly 42 from white).
\<close>

definition px :: "nat \<Rightarrow> nat \<Rightarrow> nat \<Rightarrow> nat \<Rightarrow> byte list" where
  "px r g b a = [of_nat r, of_nat g, of_nat b, of_nat a]"

definition framed_image :: image where
  "framed_image = \<lparr>width = 3, height = 3, channels = 4,
     data = concat [px 255 255 255 255, px 255 255 255 255, px 255 255 255 255,
                    px 255 255 255 255, px 10 20 30 255,    px 255 255 255 255,
                    px 250 250 250 255, px 255 255 255 255, px 0 0 0 255]\<rparr>"

definition dark_image :: image where
  "dark_image = \<lparr>width = 2, height = 2, channels = 4,
     data = concat [px 10 20 30 255, px 213 255 255 255, px 0 0 0 255, px 200 200 200 255]\<rparr>"

definition big_image :: "byte list" where
  "big_image = replicate 5000 7"

text \<open>
  Codecs: one that stores width, height and the raw pixels; one that decodes alike and
  always fails to encode; one that rejects every buffer.
\<close>

definition raw_decode :: "byte list \<Rightarrow> error + image" where
  "raw_decode b =
     (case b of
        w # h # d \<Rightarrow>
          if length d = unat w * unat h * 4
          then Inr \<lparr>width = unat w, height = unat h, channels = 4, data = d\<rparr>
          else Inl (ImageError ''corrupt header'')
      | _ \<Rightarrow> Inl (ImageError ''unsupported image format''))"

definition raw_encode :: "image \<Rightarrow> error + byte list" where
  "raw_encode im = Inr (of_nat (width im) # of_nat (height im) # data im)"

definition raw_codec :: codec where
  "raw_codec = \<lparr>decode = raw_decode, encode = raw_encode\<rparr>"

definition failing_encoder :: codec where
  "failing_encoder = \<lparr>decode = raw_decode, encode = (\<lambda>im. Inl (ImageError ''trim failed''))\<rparr>"

definition no_decoder :: codec where
  "no_decoder = \<lparr>decode = (\<lambda>b. Inl (ImageError ''unsupported image format'')),
     encode = (\<lambda>im. Inl (ImageError ''unsupported image format''))\<rparr>"






text \<open>
  Services for the image model: the first attempt returns text only, the second an
  image of 10 bytes, the third an image of 5000 bytes; and a service for a whole run,
  whose text models describe one person per photo and whose image model returns an
  image on its fourth request only.
\<close>

definition third_time_lucky :: service where
  "third_time_lucky =
     (\<lambda>m k. if k = 0 then Inr (parts_response [TextPart ''I cannot draw this''])
            else if k = 1 then Inr (parts_response [InlineData (replicate 10 0)])
            else Inr (parts_response [TextPart ''Here it is'', InlineData big_image]))"

definition pipeline_service :: service where
  "pipeline_service =
     (\<lambda>m k. if m = IMAGE_MODEL
            then (if k = 3 then Inr (parts_response [InlineData big_image])
                  else Inr (parts_response [TextPart ''no image'']))
            else answers [woman_left, man_right] m k)"

section \<open>Proofs\<close>

declare tier_attempts.simps [simp del]

lemma trim_idem: "trim (trim s) = trim s"
  unfolding trim_def
  by (metis (no_types, lifting) ext Nil_is_rev_conv dropWhile_eq_Nil_conv
    dropWhile_eq_self_iff dropWhile_last hd_dropWhile last_rev rev_swap)

lemma length_trim_le: "length (trim s) \<le> length s"
  unfolding trim_def
  by (metis length_dropWhile_le length_rev order_trans)

lemma split_from_none:
  "\<not> str_includes s sep \<Longrightarrow> split_from sep acc s = [rev acc @ s]"
  by (induction s arbitrary: acc) auto

lemma str_includes_Nil [simp]: "str_includes s []"
  by (cases s) auto

lemma split_none: "\<not> str_includes s sep \<Longrightarrow> split s sep = [s]"
  by (cases "sep = []") (auto simp: split_def split_from_none)

lemma split_from_length:
  "f \<in> set (split_from sep acc s) \<Longrightarrow> length f \<le> length acc + length s"
proof (induction sep acc s rule: split_from.induct)
  case (1 sep acc)
  then show ?case by simp
next
  case (2 sep acc c cs)
  show ?case
  proof (cases "prefix sep (c # cs)")
    case True
    with 2 show ?thesis by (auto simp del: Cons_prefix_Cons dest!: "2.IH"(1)[OF True]) 
  next
    case False
    with 2 show ?thesis by (auto simp del: Cons_prefix_Cons)
  qed
qed

lemma split_length: "f \<in> set (split s sep) \<Longrightarrow> length f \<le> length s"
  by (cases s) (auto simp: split_def dest: split_from_length split: if_splits)

lemma short_text_no_fragment:
  assumes "length t \<le> 20"
  shows "filter (\<lambda>s. 20 < length s) (map trim (split t sep)) = []"
proof -
  have "length (trim f) \<le> 20" if "f \<in> set (split t sep)" for f
    using split_length[OF that] length_trim_le[of f] assms by linarith
  then show ?thesis by (fastforce simp: filter_empty_conv)
qed

lemma tier_attempts_success:
  "svc m (calls w m) = Inr r \<Longrightarrow>
   tier_attempts svc m 0 le w = (Inl r, snd (generateContent svc m w))"
  by (simp add: tier_attempts.simps[of svc m 0] generateContent_def)

lemma tier_attempts_other_error:
  "svc m (calls w m) = Inl e \<Longrightarrow> err_status e \<noteq> Some 429 \<Longrightarrow>
   tier_attempts svc m 0 le w = (Inr (Some e), snd (generateContent svc m w))"
  by (simp add: tier_attempts.simps[of svc m 0] generateContent_def)

lemma tier_attempts_rate_limited:
  "svc m (calls w m) = Inl e1 \<Longrightarrow> err_status e1 = Some 429 \<Longrightarrow>
   svc m (Suc (calls w m)) = Inl e2 \<Longrightarrow> err_status e2 = Some 429 \<Longrightarrow>
   tier_attempts svc m 0 le w =
     (Inr (Some e2),
      w\<lparr>calls := (calls w)(m := calls w m + 2),
        trace := trace w @ [Request m, Sleep 2000, Request m]\<rparr>)"
  by (simp add: tier_attempts.simps[of svc m 0] tier_attempts.simps[of svc m "Suc 0"]  generateContent_def sleep_def)

lemma describePersons_ok:
  "fst (callGemini svc w) = Inr res \<Longrightarrow> fst (describePersons svc w) = describe_text (res_text res)"
  by (cases "callGemini svc w") (auto simp: describePersons_def)

lemma callGemini_always_text:
  "fst (callGemini (always_text t) w) = Inr (text_response t)"
  by (simp add: callGemini_def MODELS_def always_text_def tier_attempts_success)

text \<open>
  Claim C5, as amended. When the call succeeds and the trimmed response text does not
  contain \<open>NO_PERSON\<close>: a text of at most 20 characters gives no person; otherwise the
  text is split on \<open>---PERSON---\<close>, every fragment is trimmed, the fragments of at most
  20 characters are discarded, and when none remains the whole trimmed text is the one
  description. In particular a trimmed text of more than 20 characters without the
  delimiter gives exactly one person, the trimmed text itself.
\<close>

theorem describePersons_parse:
  assumes "fst (callGemini svc w) = Inr res"
    and "text = trim (case res_text res of Some t \<Rightarrow> t | None \<Rightarrow> [])"
    and "\<not> str_includes text ''NO_PERSON''"
  shows "fst (describePersons svc w) =
           (let frags = filter (\<lambda>s. 20 < length s) (map trim (split text ''---PERSON---''))
            in if length text \<le> 20 then [] else if frags = [] then [text] else frags)
         \<and> (\<not> str_includes text ''---PERSON---'' \<and> 20 < length text \<longrightarrow>
              fst (describePersons svc w) = [text])"
proof -
  let ?frags = "filter (\<lambda>s. 20 < length s) (map trim (split text ''---PERSON---''))"
  have d: "fst (describePersons svc w) = describe_text (res_text res)"
    using assms(1) by (rule describePersons_ok)
  have short: "?frags = []" if "length text \<le> 20"
    using that by (rule short_text_no_fragment)
  have first: "describe_text (res_text res) =
      (if length text \<le> 20 then [] else if ?frags = [] then [text] else ?frags)"
  proof (cases "length text < 20")
    case True
    then show ?thesis using assms(2) by (simp add: describe_text_def)
  next
    case False
    show ?thesis
    proof (cases "length text = 20")
      case True
      then show ?thesis
        using assms(2,3) short by (simp add: describe_text_def Let_def)
    next
      case F: False
      with False have "20 < length text" by simp
      then show ?thesis
        using assms(2,3) by (simp add: describe_text_def Let_def)
    qed
  qed
  have second: "describe_text (res_text res) = [text]"
    if nd: "\<not> str_includes text ''---PERSON---''" and long: "20 < length text"
  proof -
    have "trim text = text" using assms(2) by (simp add: trim_idem)
    then have "?frags = [text]" using split_none[OF nd] long by simp
    then show ?thesis using first long by simp
  qed
  show ?thesis using d first second by (simp add: Let_def)
qed

text \<open>
  Witness for C5: a padded single description without delimiter.
\<close>

theorem describePersons_parse_witness:
  "fst (callGemini (always_text ''  A tall man wearing a red jacket  '') world0)
     = Inr (text_response ''  A tall man wearing a red jacket  '')
   \<and> \<not> str_includes ''A tall man wearing a red jacket'' ''NO_PERSON''
   \<and> \<not> str_includes ''A tall man wearing a red jacket'' ''---PERSON---''
   \<and> fst (describePersons (always_text ''  A tall man wearing a red jacket  '') world0)
       = [''A tall man wearing a red jacket'']"
proof -
  let ?t = "''  A tall man wearing a red jacket  ''"
  let ?u = "''A tall man wearing a red jacket''"
  have h1: "fst (callGemini (always_text ?t) world0) = Inr (text_response ?t)"
    by (rule callGemini_always_text)
  have h2: "?u = trim (case res_text (text_response ?t) of Some t \<Rightarrow> t | None \<Rightarrow> [])"
    by (simp add: text_response_def trim_def is_js_space_def)
  have h3: "\<not> str_includes ?u ''NO_PERSON''" by simp
  have h4: "\<not> str_includes ?u ''---PERSON---''" by simp
  have r: "fst (describePersons (always_text ?t) world0) = [?u]"
    using describePersons_parse[OF h1 h2 h3, THEN conjunct2] by simp
  show ?thesis
    using h1 h3 h4 r by simp
qed

text \<open>
  Counterexample to C5 as stated: two responses without delimiter and longer than 20
  characters that give no person, one because it contains the sentinel, one because
  only its trimmed text counts.
\<close>

theorem describePersons_one_person_counterexample:
  "\<not> str_includes ''There is NO_PERSON in this photo.'' ''---PERSON---''
   \<and> 20 < length ''There is NO_PERSON in this photo.''
   \<and> fst (describePersons (always_text ''There is NO_PERSON in this photo.'') world0) = []
   \<and> \<not> str_includes ''ok                       '' ''---PERSON---''
   \<and> 20 < length ''ok                       ''
   \<and> fst (describePersons (always_text ''ok                       '') world0) = []"
  by (simp add: describePersons_ok[OF callGemini_always_text] text_response_def
      describe_text_def trim_def is_js_space_def)

text \<open>
  Claim C10. When the trimmed response text contains \<open>NO_PERSON\<close> anywhere,
  \<open>_describePersons\<close> returns the empty list, whatever else the text holds.
\<close>

theorem describePersons_sentinel:
  assumes "fst (callGemini svc w) = Inr res"
    and "res_text res = Some t"
    and "str_includes (trim t) ''NO_PERSON''"
  shows "fst (describePersons svc w) = []"
  using assms by (simp add: describePersons_ok describe_text_def)

text \<open>
  Witness for C10: the text holds the sentinel and a delimited paragraph of more than
  20 characters, which the paragraph parsing alone would keep.
\<close>

theorem describePersons_sentinel_witness:
  "str_includes (trim ''NO_PERSON---PERSON---A woman with long brown hair and a red coat'') ''NO_PERSON''
   \<and> filter (\<lambda>s. 20 < length s)
        (map trim (split ''NO_PERSON---PERSON---A woman with long brown hair and a red coat'' ''---PERSON---''))
       = [''A woman with long brown hair and a red coat'']
   \<and> fst (describePersons
        (always_text ''NO_PERSON---PERSON---A woman with long brown hair and a red coat'') world0) = []"
proof -
  let ?t = "''NO_PERSON---PERSON---A woman with long brown hair and a red coat''"
  have h1: "fst (callGemini (always_text ?t) world0) = Inr (text_response ?t)"
    by (rule callGemini_always_text)
  have h2: "res_text (text_response ?t) = Some ?t" by (simp add: text_response_def)
  have h3: "str_includes (trim ?t) ''NO_PERSON''"
    by (simp add: trim_def is_js_space_def)
  have h4: "filter (\<lambda>s. 20 < length s) (map trim (split ?t ''---PERSON---''))
       = [''A woman with long brown hair and a red coat'']"
    by (simp add: split_def trim_def is_js_space_def)
  show ?thesis using describePersons_sentinel[OF h1 h2 h3] h3 h4 by simp
qed

text \<open>
  Claim C2. With tiers \<open>A, B, ...\<close>, when every request to \<open>A\<close> fails rate-limited and
  the first request to \<open>B\<close> succeeds: two requests go to \<open>A\<close> with one 2000 ms pause
  between them, one request goes to \<open>B\<close>, no other request is made, and the response of
  \<open>B\<close> is returned.
\<close>

theorem callGemini_falls_back:
  assumes A: "\<forall>k. \<exists>e. svc A k = Inl e \<and> err_status e = Some 429"
    and B: "svc B (calls w B) = Inr r"
  shows "callGemini_tiers svc (A # B # rest) None w =
           (Inr r,
            w\<lparr>calls := (calls w)(A := calls w A + 2, B := calls w B + 1),
              trace := trace w @ [Request A, Sleep 2000, Request A, Request B]\<rparr>)"
proof -
  obtain e1 where e1: "svc A (calls w A) = Inl e1" "err_status e1 = Some 429"
    using A by blast
  obtain e2 where e2: "svc A (Suc (calls w A)) = Inl e2" "err_status e2 = Some 429"
    using A by blast
  have ne: "A \<noteq> B" using e1 B by auto
  let ?w1 = "w\<lparr>calls := (calls w)(A := calls w A + 2),
              trace := trace w @ [Request A, Sleep 2000, Request A]\<rparr>"
  have t1: "tier_attempts svc A 0 None w = (Inr (Some e2), ?w1)"
    using e1 e2 by (rule tier_attempts_rate_limited)
  have "svc B (calls ?w1 B) = Inr r" using B ne by simp
  then have t2: "tier_attempts svc B 0 (Some e2) ?w1 = (Inl r, snd (generateContent svc B ?w1))"
    by (rule tier_attempts_success)
  have "callGemini_tiers svc (A # B # rest) None w = callGemini_tiers svc (B # rest) (Some e2) ?w1"
    by (simp only: callGemini_tiers.simps t1 prod.case sum.case)
  also have "\<dots> = (Inr r, snd (generateContent svc B ?w1))"
    by (simp only: callGemini_tiers.simps t2 prod.case sum.case)
  also have "snd (generateContent svc B ?w1) =
      w\<lparr>calls := (calls w)(A := calls w A + 2, B := calls w B + 1),
        trace := trace w @ [Request A, Sleep 2000, Request A, Request B]\<rparr>"
    using ne by (simp add: generateContent_def)
  finally show ?thesis .
qed

text \<open>
  Witness for C2 on the tier list of the code: the first model always rate-limits, the
  second answers, the two Gemma models are never asked.
\<close>

theorem callGemini_falls_back_witness:
  "(\<forall>k. \<exists>e. flash_limited ''gemini-2.0-flash'' k = Inl e \<and> err_status e = Some 429)
   \<and> flash_limited ''gemini-2.0-flash-lite'' (calls world0 ''gemini-2.0-flash-lite'')
       = Inr (text_response ''ok'')
   \<and> fst (callGemini flash_limited world0) = Inr (text_response ''ok'')
   \<and> trace (snd (callGemini flash_limited world0))
       = [Request ''gemini-2.0-flash'', Sleep 2000, Request ''gemini-2.0-flash'',
          Request ''gemini-2.0-flash-lite'']
   \<and> calls (snd (callGemini flash_limited world0)) ''gemini-2.0-flash'' = 2
   \<and> calls (snd (callGemini flash_limited world0)) ''gemini-2.0-flash-lite'' = 1
   \<and> calls (snd (callGemini flash_limited world0)) ''gemma-3-27b-it'' = 0
   \<and> calls (snd (callGemini flash_limited world0)) ''gemma-3-12b-it'' = 0"
proof -
  have a: "\<forall>k. \<exists>e. flash_limited ''gemini-2.0-flash'' k = Inl e \<and> err_status e = Some 429"
    by (simp add: flash_limited_def rate_limit_error_def)
  have b: "flash_limited ''gemini-2.0-flash-lite'' (calls world0 ''gemini-2.0-flash-lite'')
       = Inr (text_response ''ok'')"
    by (simp add: flash_limited_def)
  have c: "callGemini flash_limited world0 =
      (Inr (text_response ''ok''),
       world0\<lparr>calls := (calls world0)(''gemini-2.0-flash'' := calls world0 ''gemini-2.0-flash'' + 2,
           ''gemini-2.0-flash-lite'' := calls world0 ''gemini-2.0-flash-lite'' + 1),
         trace := trace world0 @ [Request ''gemini-2.0-flash'', Sleep 2000,
           Request ''gemini-2.0-flash'', Request ''gemini-2.0-flash-lite'']\<rparr>)"
    unfolding callGemini_def MODELS_def
    by (rule callGemini_falls_back[OF a b])
  show ?thesis
    using a b by (simp add: c) (simp add: world0_def)
qed

lemma callGemini_tiers_all_fail:
  assumes "distinct tiers"
    and "\<forall>m \<in> set tiers. \<exists>e. svc m (calls w m) = Inl e \<and> err_status e \<noteq> Some 429"
  shows "callGemini_tiers svc tiers le w =
           (Inl (if tiers = [] then (case le of Some e \<Rightarrow> e | None \<Rightarrow> AllModelsFailed)
                 else projl (svc (last tiers) (calls w (last tiers)))),
            w\<lparr>calls := (\<lambda>m. if m \<in> set tiers then calls w m + 1 else calls w m),
              trace := trace w @ map Request tiers\<rparr>)"
  using assms
proof (induction tiers arbitrary: le w)
  case Nil
  then show ?case by simp
next
  case (Cons m rest)
  obtain e where e: "svc m (calls w m) = Inl e" "err_status e \<noteq> Some 429"
    using Cons.prems(2) by auto
  let ?w1 = "snd (generateContent svc m w)"
  have t: "tier_attempts svc m 0 le w = (Inr (Some e), ?w1)"
    using e by (rule tier_attempts_other_error)
  have same: "calls ?w1 x = calls w x" if "x \<in> set rest" for x
    using that Cons.prems(1) by (auto simp: generateContent_def)
  have d: "distinct rest" using Cons.prems(1) by simp
  have f: "\<forall>x \<in> set rest. \<exists>e. svc x (calls ?w1 x) = Inl e \<and> err_status e \<noteq> Some 429"
    using Cons.prems(2) same by simp
  have lastin: "rest \<noteq> [] \<Longrightarrow> last rest \<in> set rest" by simp
  have c: "(\<lambda>x. if x \<in> set rest then calls ?w1 x + 1 else calls ?w1 x)
           = (\<lambda>x. if x \<in> set (m # rest) then calls w x + 1 else calls w x)"
    using Cons.prems(1) by (auto simp: generateContent_def fun_eq_iff)
  show ?case
    using Cons.IH[where w = ?w1 and le = "Some e"] d f e(1) lastin same c
    by (simp add: t) (simp add: generateContent_def)
qed

text \<open>
  Claim C3. With a non-empty list of distinct tiers, when the request to every tier fails
  with an error that is not rate-limiting: every tier receives exactly one request, in
  order, without any pause, and the call fails with the error of the last tier.
\<close>

theorem callGemini_no_retry_on_other_errors:
  assumes "tiers \<noteq> []" and "distinct tiers"
    and "\<forall>m \<in> set tiers. \<exists>e. svc m (calls w m) = Inl e \<and> err_status e \<noteq> Some 429"
  shows "\<exists>e. svc (last tiers) (calls w (last tiers)) = Inl e \<and>
           callGemini_tiers svc tiers None w =
             (Inl e,
              w\<lparr>calls := (\<lambda>m. if m \<in> set tiers then calls w m + 1 else calls w m),
                trace := trace w @ map Request tiers\<rparr>)"
proof -
  have "last tiers \<in> set tiers" using assms(1) by simp
  then obtain e where e: "svc (last tiers) (calls w (last tiers)) = Inl e"
    using assms(3) by blast
  show ?thesis
    using callGemini_tiers_all_fail[where tiers = tiers and svc = svc and w = w and le = None]
      assms e by simp
qed

text \<open>
  Witness for C3 on the tier list of the code: every model answers with a 400 error
  that carries its own name; four requests are made and the last model's error is thrown.
\<close>

theorem callGemini_no_retry_on_other_errors_witness:
  "MODELS \<noteq> [] \<and> distinct MODELS
   \<and> (\<forall>m. \<exists>e. always_bad_request m (calls world0 m) = Inl e \<and> err_status e \<noteq> Some 429)
   \<and> fst (callGemini always_bad_request world0) = Inl (bad_request_error ''gemma-3-12b-it'')
   \<and> trace (snd (callGemini always_bad_request world0))
       = [Request ''gemini-2.0-flash'', Request ''gemini-2.0-flash-lite'',
          Request ''gemma-3-27b-it'', Request ''gemma-3-12b-it'']
   \<and> calls (snd (callGemini always_bad_request world0)) ''gemini-2.0-flash'' = 1
   \<and> calls (snd (callGemini always_bad_request world0)) ''gemma-3-12b-it'' = 1"
proof -
  have n: "MODELS \<noteq> []" and d: "distinct MODELS"
    by (simp_all add: MODELS_def)
  have f: "\<forall>m. \<exists>e. always_bad_request m (calls world0 m) = Inl e \<and> err_status e \<noteq> Some 429"
    by (simp add: always_bad_request_def bad_request_error_def)
  then have f': "\<forall>m \<in> set MODELS.
      \<exists>e. always_bad_request m (calls world0 m) = Inl e \<and> err_status e \<noteq> Some 429"
    by blast
  obtain e where e: "always_bad_request (last MODELS) (calls world0 (last MODELS)) = Inl e"
    and r: "callGemini_tiers always_bad_request MODELS None world0 =
       (Inl e, world0\<lparr>calls := (\<lambda>m. if m \<in> set MODELS then calls world0 m + 1 else calls world0 m),
                 trace := trace world0 @ map Request MODELS\<rparr>)"
    using callGemini_no_retry_on_other_errors
      [where tiers = MODELS and svc = always_bad_request and w = world0] n d f'
    by blast
  have "e = bad_request_error ''gemma-3-12b-it''"
    using e by (simp add: always_bad_request_def MODELS_def)
  then show ?thesis
    using n d f by (simp add: callGemini_def r) (simp add: MODELS_def world0_def)
qed

subsection \<open>The segmenter\<close>

lemma sqrt_below_threshold: "sqrt (real_of_int s) < WHITE_THRESHOLD \<longleftrightarrow> s < 1764"
proof -
  have "sqrt (real_of_int s) < 42 \<longleftrightarrow> sqrt (real_of_int s) < sqrt (42\<^sup>2)"
    by simp
  also have "\<dots> \<longleftrightarrow> real_of_int s < 42\<^sup>2"
    by (rule real_sqrt_less_iff)
  also have "\<dots> \<longleftrightarrow> s < 1764"
    by simp
  finally show ?thesis by (simp add: WHITE_THRESHOLD_def)
qed

lemma isWhitish_int:
  "isWhitish d idx =
     (case (byte_at d idx, byte_at d (idx + 1), byte_at d (idx + 2)) of
        (Some r, Some g, Some b) \<Rightarrow> (255 - r)\<^sup>2 + (255 - g)\<^sup>2 + (255 - b)\<^sup>2 < 1764
      | _ \<Rightarrow> False)"
  by (simp only: isWhitish_def sqrt_below_threshold)

declare isWhitish_int [code]

lemma mask_at_update:
  "0 \<le> pos \<Longrightarrow> nat pos < length m \<Longrightarrow>
   mask_at (m[nat pos := v]) p = (if p = pos then Some v else mask_at m p)"
  by (auto simp: mask_at_def)

lemma mask_at_Some_iff:
  "mask_at m p = Some v \<longleftrightarrow> 0 \<le> p \<and> nat p < length m \<and> m ! nat p = v"
  by (auto simp: mask_at_def)

text \<open>Coordinates of a position inside a w * h grid.\<close>

lemma grid_coords:
  fixes p w h :: int
  assumes "0 \<le> p" and "p < w * h" and "0 \<le> w" and "0 \<le> h"
  shows "0 < w" and "0 < h" and "0 \<le> p mod w" and "p mod w < w"
    and "0 \<le> p div w" and "p div w < h" and "p = p div w * w + p mod w"
proof -
  show w: "0 < w" using assms by (cases "w = 0") auto
  show "0 < h" using assms by (cases "h = 0") auto
  show "0 \<le> p mod w" "p mod w < w" using w by simp_all
  show "0 \<le> p div w" using w assms(1) by (simp add: pos_imp_zdiv_nonneg_iff)
  show e: "p = p div w * w + p mod w" by simp
  have "p div w * w \<le> p" using w by (metis e \<open>0 \<le> p mod w\<close> le_add_same_cancel1)
  then have "p div w * w < h * w" using assms(2) by (simp add: mult.commute)
  then show "p div w < h" using w by simp
qed

lemma grid_row_bound:
  fixes w h y :: int
  assumes "y < h" and "0 \<le> w"
  shows "(y + 1) * w \<le> h * w"
  using assms by (intro mult_right_mono) auto

lemma neighbors_in_image:
  assumes "in_image im p" and "n \<in> set (neighbors (width im) (height im) p)"
  shows "in_image im n"
proof -
  define w h x y where "w = int (width im)" and "h = int (height im)"
    and "x = p mod w" and "y = p div w"
  have p: "0 \<le> p" "p < w * h" using assms(1) by (simp_all add: in_image_def w_def h_def)
  have wh: "0 \<le> w" "0 \<le> h" by (simp_all add: w_def h_def)
  note c = grid_coords[OF p wh, folded x_def y_def]
  consider (l) "x > 0" "n = p - 1" | (r) "x < w - 1" "n = p + 1"
    | (u) "y > 0" "n = p - w" | (d) "y < h - 1" "n = p + w"
    using assms(2) by (auto simp: neighbors_def Let_def w_def h_def x_def y_def split: if_splits)
  then have "0 \<le> n \<and> n < w * h"
  proof cases
    case l
    then have "p \<noteq> 0" by (auto simp: x_def)
    then show ?thesis using l p by auto
  next
    case r
    have "p + 1 < (y + 1) * w" using r(1) c(7) by (simp add: algebra_simps)
    also have "\<dots> \<le> h * w" using c wh by (intro grid_row_bound) auto
    finally show ?thesis using r p by (simp add: mult.commute)
  next
    case u
    have "1 * w \<le> y * w" using u(1) wh by (intro mult_right_mono) auto
    also have "\<dots> \<le> p" using c(3,7) by linarith
    finally show ?thesis using u p c by auto
  next
    case d
    have "p + w < (y + 1 + 1) * w" using c(4,7) by (simp add: algebra_simps)
    also have "\<dots> \<le> h * w" using d(1) wh by (intro grid_row_bound) auto
    finally show ?thesis using d p c by (simp add: mult.commute)
  qed
  then show ?thesis by (simp add: in_image_def w_def h_def)
qed

lemma seeds_set:
  "set (seeds w h) =
     {int x | x. x < w} \<union> {(int h - 1) * int w + int x | x. x < w} \<union>
     {int y * int w | y. y < h} \<union> {int y * int w + int w - 1 | y. y < h}"
  by (auto simp: seeds_def)

lemma seeds_border:
  assumes "in_image im p"
  shows "p \<in> set (seeds (width im) (height im)) \<longleftrightarrow> on_border im p"
proof -
  define w h x y where "w = int (width im)" and "h = int (height im)"
    and "x = p mod w" and "y = p div w"
  have p: "0 \<le> p" "p < w * h" using assms(1) by (simp_all add: in_image_def w_def h_def)
  have wh: "0 \<le> w" "0 \<le> h" by (simp_all add: w_def h_def)
  note c = grid_coords[OF p wh, folded x_def y_def]
  have 1: "(\<exists>a. p = int a \<and> a < width im) \<longleftrightarrow> y = 0"
    by (metis c(1) leI nonneg_int_cases of_nat_less_iff p(1)
        pos_imp_zdiv_pos_iff verit_comp_simplify1(1) w_def y_def zdiv_eq_0_iff)
  have 2: "(\<exists>a. p = (h - 1) * w + int a \<and> a < width im) \<longleftrightarrow> y = h - 1"
  proof
    assume "\<exists>a. p = (h - 1) * w + int a \<and> a < width im"
    then obtain a where a: "p = (h - 1) * w + int a" "int a < w" by (auto simp: w_def)
    have "p div w = (h - 1) + int a div w" unfolding a(1) using c(1) by simp
    also have "int a div w = 0" using a(2) by simp
    finally show "y = h - 1" by (simp add: y_def)
  next
    assume "y = h - 1"
    then have "p = (h - 1) * w + int (nat x)" using c(3,7) by simp
    moreover have "nat x < width im" using c(3,4) by (simp add: w_def)
    ultimately show "\<exists>a. p = (h - 1) * w + int a \<and> a < width im" by blast
  qed
  have 3: "(\<exists>b. p = int b * w \<and> b < height im) \<longleftrightarrow> x = 0"
    by (smt (verit) c(5,6,7) h_def int_nat_eq mod_mult_self2_is_0
        of_nat_less_iff w_def x_def)
  have 4: "(\<exists>b. p = int b * w + w - 1 \<and> b < height im) \<longleftrightarrow> x = w - 1"
  proof
    assume "\<exists>b. p = int b * w + w - 1 \<and> b < height im"
    then obtain b where "p = int b * w + w - 1" by blast
    then have b: "p = int b * w + (w - 1)" by simp
    have "p mod w = (w - 1) mod w" unfolding b by simp
    also have "\<dots> = w - 1" using c(1) by (intro mod_pos_pos_trivial) auto
    finally show "x = w - 1" by (simp add: x_def)
  next
    assume "x = w - 1"
    then have "p = int (nat y) * w + w - 1" using c(5,7) by simp
    moreover have "nat y < height im" using c(5,6) by (simp add: h_def)
    ultimately show "\<exists>b. p = int b * w + w - 1 \<and> b < height im" by blast
  qed
  have "p \<in> set (seeds (width im) (height im)) \<longleftrightarrow>
      (\<exists>a. p = int a \<and> a < width im) \<or> (\<exists>a. p = (h - 1) * w + int a \<and> a < width im) \<or>
      (\<exists>b. p = int b * w \<and> b < height im) \<or> (\<exists>b. p = int b * w + w - 1 \<and> b < height im)"
    unfolding seeds_set w_def h_def by blast
  also have "\<dots> \<longleftrightarrow> x = 0 \<or> x = w - 1 \<or> y = 0 \<or> y = h - 1"
    unfolding 1 2 3 4 by blast
  also have "\<dots> \<longleftrightarrow> on_border im p"
    using assms by (simp add: on_border_def x_def y_def w_def h_def)
  finally show ?thesis .
qed

lemma background_whitish: "p \<in> background im \<Longrightarrow> whitish im p"
  by (cases rule: background.cases) auto

lemma background_in_image: "p \<in> background im \<Longrightarrow> in_image im p"
  by (induction rule: background.induct) (auto simp: on_border_def intro: neighbors_in_image)

lemma reached_whitish: "reached im p \<Longrightarrow> whitish im p \<Longrightarrow> p \<in> background im"
  by (auto simp: reached_def intro: background.intros)

lemma mask_at_in_image:
  "length m = width im * height im \<Longrightarrow> (mask_at m p = None) = (\<not> in_image im p)"
  by (auto simp: mask_at_def in_image_def nat_less_iff simp del: of_nat_mult)

lemma fill_inv_skip:
  assumes "fill_inv im (pos # q) m" and "\<not> in_image im pos \<or> mask_at m pos \<noteq> Some 0"
  shows "fill_inv im q m"
proof -
  have len: "length m = width im * height im" using assms(1) by (simp add: fill_inv_def)
  have z: "mask_at m pos \<noteq> Some 0"
    using assms(2) mask_at_in_image[OF len, of pos] by auto
  show ?thesis
    using assms(1) z unfolding fill_inv_def by (auto simp: on_border_def)
qed

lemma fill_inv_mark:
  assumes "fill_inv im (pos # q) m" and "in_image im pos" and "mask_at m pos = Some 0"
    and "\<not> whitish im pos"
  shows "fill_inv im q (m[nat pos := 2])"
proof -
  have r: "0 \<le> pos" "nat pos < length m" using assms(3) by (auto simp: mask_at_Some_iff)
  note u = mask_at_update[OF r]
  have "reached im pos" using assms(1,2) by (simp add: fill_inv_def)
  then show ?thesis
    using assms unfolding fill_inv_def u
    by (auto split: if_splits)
qed

lemma fill_inv_fill:
  assumes "fill_inv im (pos # q) m" and "in_image im pos" and "mask_at m pos = Some 0"
    and "whitish im pos"
  shows "fill_inv im
           (q @ filter (\<lambda>n. mask_at (m[nat pos := 1]) n = Some 0)
                  (neighbors (width im) (height im) pos))
           (m[nat pos := 1])"
proof -
  have r: "0 \<le> pos" "nat pos < length m" using assms(3) by (auto simp: mask_at_Some_iff)
  note u = mask_at_update[OF r]
  have "reached im pos" using assms(1,2) by (simp add: fill_inv_def)
  then have bg: "pos \<in> background im" using assms(4) by (rule reached_whitish)
  then have nb: "reached im n" if "n \<in> set (neighbors (width im) (height im) pos)" for n
    using that by (auto simp: reached_def)
  show ?thesis
    using assms bg nb unfolding fill_inv_def u
    by (auto split: if_splits)
qed

lemma flood_inv: "fill_inv im q m \<Longrightarrow> fill_inv im [] (flood im q m)"
proof (induction im q m rule: flood.induct)
  case (1 im msk)
  then show ?case by (simp add: flood.simps)
next
  case (2 im pos queue msk)
  have w: "whitish im pos = isWhitish (data im) (nat pos * channels im)"
    by (simp add: whitish_def)
  have i: "in_image im pos \<longleftrightarrow> \<not> (pos < 0 \<or> pos \<ge> int (width im * height im))"
    by (auto simp: in_image_def)
  show ?case
    using 2 fill_inv_skip[of im pos queue msk] fill_inv_mark[of im pos queue msk]
      fill_inv_fill[of im pos queue msk]
    unfolding w i by (simp add: flood.simps(2)[of im pos queue msk])
qed

lemma mask_at_replicate: "mask_at (replicate n 0) p = Some v \<Longrightarrow> v = 0"
  by (auto simp: mask_at_def split: if_splits)

lemma fill_inv_init:
  "fill_inv im (seeds (width im) (height im)) (replicate (width im * height im) 0)"
proof -
  let ?m = "replicate (width im * height im) (0::nat)"
  have z: "v = 0" if "mask_at ?m p = Some v" for p v
    using that by (rule mask_at_replicate)
  have a: "reached im n" if "n \<in> set (seeds (width im) (height im))" "in_image im n" for n
    using that seeds_border[of im n] by (simp add: reached_def)
  have b: "p \<in> set (seeds (width im) (height im))" if "on_border im p" for p
    using that seeds_border[of im p] by (simp add: on_border_def)
  show ?thesis
    unfolding fill_inv_def
  proof (intro conjI allI impI ballI)
    show "length ?m = width im * height im" by simp
  next
    fix p assume "mask_at ?m p = Some 1"
    from z[OF this] show "p \<in> background im" by simp
  next
    fix p assume "mask_at ?m p = Some 2"
    from z[OF this] show "reached im p" by simp
  next
    fix p assume "mask_at ?m p = Some 2"
    from z[OF this] show "\<not> whitish im p" by simp
  next
    fix p v assume "mask_at ?m p = Some v"
    from z[OF this] show "v \<le> 2" by simp
  next
    fix n assume "n \<in> set (seeds (width im) (height im))" "in_image im n"
    then show "reached im n" by (rule a)
  next
    fix p assume "on_border im p"
    then show "mask_at ?m p \<noteq> Some 0 \<or> p \<in> set (seeds (width im) (height im))"
      using b by simp
  next
    fix p n assume "mask_at ?m p = Some 1"
    from z[OF this] show "mask_at ?m n \<noteq> Some 0 \<or> n \<in> set (seeds (width im) (height im))"
      by simp
  qed
qed

lemma fill_inv_length: "fill_inv im q m \<Longrightarrow> length m = width im * height im"
  by (simp add: fill_inv_def)

lemma fill_inv_one: "fill_inv im q m \<Longrightarrow> mask_at m p = Some 1 \<Longrightarrow> p \<in> background im"
  by (simp add: fill_inv_def)

lemma fill_inv_two:
  "fill_inv im q m \<Longrightarrow> mask_at m p = Some 2 \<Longrightarrow> reached im p \<and> \<not> whitish im p"
  by (simp add: fill_inv_def)

lemma fill_inv_range: "fill_inv im q m \<Longrightarrow> mask_at m p = Some v \<Longrightarrow> v \<le> 2"
  unfolding fill_inv_def by blast

lemma fill_inv_border:
  "fill_inv im [] m \<Longrightarrow> on_border im p \<Longrightarrow> mask_at m p \<noteq> Some 0"
  unfolding fill_inv_def by simp

lemma fill_inv_closed:
  "fill_inv im [] m \<Longrightarrow> mask_at m p = Some 1 \<Longrightarrow>
   n \<in> set (neighbors (width im) (height im) p) \<Longrightarrow> mask_at m n \<noteq> Some 0"
  unfolding fill_inv_def by simp

lemma floodFill_inv: "fill_inv im [] (floodFill im)"
  unfolding floodFill_def by (rule flood_inv[OF fill_inv_init])

lemma length_floodFill: "length (floodFill im) = width im * height im"
  using floodFill_inv[of im] by (rule fill_inv_length)

lemma reached_in_image: "reached im p \<Longrightarrow> in_image im p"
  unfolding reached_def on_border_def
  using background_in_image neighbors_in_image by blast

lemma final_value:
  assumes "fill_inv im [] m" and "in_image im p"
  shows "mask_at m p = Some 0 \<or> mask_at m p = Some 1 \<or> mask_at m p = Some 2"
proof -
  have len: "length m = width im * height im" using assms(1) by (rule fill_inv_length)
  obtain v where v: "mask_at m p = Some v"
    using mask_at_in_image[OF len, of p] assms(2) by auto
  then have "v \<le> 2" using assms(1) fill_inv_range by blast
  then have "v = 0 \<or> v = 1 \<or> v = 2" by arith
  then show ?thesis using v by auto
qed

lemma final_whitish:
  assumes "fill_inv im [] m" and "in_image im p" and "whitish im p"
    and "mask_at m p \<noteq> Some 0"
  shows "mask_at m p = Some 1"
  using final_value[OF assms(1,2)] fill_inv_two[OF assms(1), of p] assms(3,4) by blast

lemma final_background:
  assumes "fill_inv im [] m" and "p \<in> background im"
  shows "mask_at m p = Some 1"
  using assms(2)
proof (induction rule: background.induct)
  case (seed p)
  then have "in_image im p" by (simp add: on_border_def)
  then show ?case
    using seed fill_inv_border[OF assms(1)] by (intro final_whitish[OF assms(1)]) auto
next
  case (spread p n)
  have "in_image im n"
    using spread(1,2) background_in_image neighbors_in_image by blast
  then show ?case
    using spread fill_inv_closed[OF assms(1)] by (intro final_whitish[OF assms(1)]) auto
qed

lemma final_reached:
  assumes "fill_inv im [] m" and "reached im p"
  shows "mask_at m p \<noteq> Some 0"
proof (cases "on_border im p")
  case True
  then show ?thesis using fill_inv_border[OF assms(1)] by blast
next
  case False
  then obtain b where b: "b \<in> background im" "p \<in> set (neighbors (width im) (height im) b)"
    using assms(2) unfolding reached_def by blast
  have "mask_at m b = Some 1" using b(1) by (rule final_background[OF assms(1)])
  then show ?thesis using b(2) by (rule fill_inv_closed[OF assms(1)])
qed

lemma background_reached: "p \<in> background im \<Longrightarrow> reached im p"
  by (cases rule: background.cases) (auto simp: reached_def)

lemma final_mask:
  assumes "fill_inv im [] m" and "in_image im p"
  shows "(mask_at m p = Some 1 \<longleftrightarrow> p \<in> background im)
       \<and> (mask_at m p = Some 2 \<longleftrightarrow> reached im p \<and> \<not> whitish im p)
       \<and> (mask_at m p = Some 0 \<longleftrightarrow> \<not> reached im p)"
proof -
  have 1: "mask_at m p = Some 1 \<longleftrightarrow> p \<in> background im"
    using fill_inv_one[OF assms(1)] final_background[OF assms(1)] by blast
  have 2: "mask_at m p = Some 2 \<Longrightarrow> reached im p \<and> \<not> whitish im p"
    by (rule fill_inv_two[OF assms(1)])
  have 0: "mask_at m p = Some 0 \<Longrightarrow> \<not> reached im p"
    using final_reached[OF assms(1)] by blast
  have r: "reached im p \<Longrightarrow> whitish im p \<Longrightarrow> mask_at m p = Some 1"
    using 1 reached_whitish by blast
  have b: "mask_at m p = Some 1 \<Longrightarrow> reached im p \<and> whitish im p"
    using 1 background_reached background_whitish by blast
  have d: "Some (0::nat) \<noteq> Some 1" "Some (0::nat) \<noteq> Some 2" "Some (1::nat) \<noteq> Some 2"
    by simp_all
  show ?thesis
    using final_value[OF assms] 0 1 2 r b d by metis
qed

lemma mask_at_nth: "p < length m \<Longrightarrow> mask_at m (int p) = Some (m ! p)"
  by (simp add: mask_at_def)

lemma foldl_unchanged:
  "(\<And>d x. x \<in> set xs \<Longrightarrow> f d x = d) \<Longrightarrow> foldl f d xs = d"
  by (induction xs arbitrary: d) auto

lemma no_background_segment:
  assumes "\<forall>p < width im * height im. floodFill im ! p \<noteq> 1"
  shows "segment im = im"
proof -
  have n: "mask_at (floodFill im) (int p) \<noteq> Some 1" if "p < width im * height im" for p
    using that assms by (simp add: mask_at_nth length_floodFill)
  have c: "clear_background im (floodFill im) d = d" for d
    unfolding clear_background_def by (rule foldl_unchanged) (use n in auto)
  have s: "soften_edges im (floodFill im) d = d" for d
    unfolding soften_edges_def by (rule foldl_unchanged) (use n in auto)
  show ?thesis by (simp add: segment_def c s)
qed


lemma alpha_pass:
  fixes C :: "nat \<Rightarrow> bool" and d :: "byte list" and v :: byte
  defines "F \<equiv> (\<lambda>d pos. if C pos then d[pos * 4 + 3 := v] else d)"
  shows "length (foldl F d [0..<n]) = length d
       \<and> (\<forall>i < length d. foldl F d [0..<n] ! i
            = (if i mod 4 = 3 \<and> i div 4 < n \<and> C (i div 4) then v else d ! i))"
proof (induction n)
  case 0
  show ?case by simp
next
  case (Suc n)
  let ?d = "foldl F d [0..<n]"
  have len: "length ?d = length d" using Suc by simp
  have st: "foldl F d [0..<Suc n] = F ?d n" by simp
  have pos: "i = n * 4 + 3 \<longleftrightarrow> i mod 4 = 3 \<and> i div 4 = n" for i by presburger
  show ?case
    unfolding st
  proof (intro conjI allI impI)
    show "length (F ?d n) = length d" using len by (simp add: F_def)
  next
    fix i assume i: "i < length d"
    then have old: "?d ! i = (if i mod 4 = 3 \<and> i div 4 < n \<and> C (i div 4) then v else d ! i)"
      using Suc by simp
    show "F ?d n ! i = (if i mod 4 = 3 \<and> i div 4 < Suc n \<and> C (i div 4) then v else d ! i)"
    proof (cases "C n \<and> i = n * 4 + 3")
      case True
      then show ?thesis using i len pos[of i] by (simp add: F_def)
    next
      case False
      then have "F ?d n ! i = ?d ! i" by (auto simp: F_def)
      then show ?thesis using old False pos[of i] by (auto simp: less_Suc_eq)
    qed
  qed
qed

lemma clear_background_nth:
  assumes "channels im = 4"
  shows "length (clear_background im m d) = length d"
    and "i < length d \<Longrightarrow> clear_background im m d ! i
           = (if i mod 4 = 3 \<and> i div 4 < width im * height im
                 \<and> mask_at m (int (i div 4)) = Some 1 then 0 else d ! i)"
  using alpha_pass[of "\<lambda>pos. mask_at m (int pos) = Some 1" 0 d "width im * height im"]
  unfolding clear_background_def assms by simp_all

lemma soften_edges_nth:
  assumes "channels im = 4"
  shows "length (soften_edges im m d) = length d"
    and "i < length d \<Longrightarrow> soften_edges im m d ! i
           = (if i mod 4 = 3 \<and> i div 4 < width im * height im
                 \<and> mask_at m (int (i div 4)) = Some 1 \<and> is_edge im m (i div 4)
              then 60 else d ! i)"
proof -
  have e: "soften_edges im m d =
     foldl (\<lambda>d pos. if mask_at m (int pos) = Some 1 \<and> is_edge im m pos
                     then d[pos * 4 + 3 := 60] else d) d [0..<width im * height im]"
    unfolding soften_edges_def is_edge_def assms
    by (rule arg_cong[where f = "\<lambda>f. foldl f d [0..<width im * height im]"]) (auto simp: fun_eq_iff)
  note a = alpha_pass[of "\<lambda>pos. mask_at m (int pos) = Some 1 \<and> is_edge im m pos" 60 d
      "width im * height im", folded e]
  show "length (soften_edges im m d) = length d" using a by simp
  show "i < length d \<Longrightarrow> soften_edges im m d ! i
           = (if i mod 4 = 3 \<and> i div 4 < width im * height im
                 \<and> mask_at m (int (i div 4)) = Some 1 \<and> is_edge im m (i div 4)
              then 60 else d ! i)"
    using a by simp
qed


lemma segment_nth:
  assumes "channels im = 4"
  shows "length (data (segment im)) = length (data im)"
    and "i < length (data im) \<Longrightarrow> data (segment im) ! i
           = (if i mod 4 = 3 \<and> i div 4 < width im * height im
                 \<and> mask_at (floodFill im) (int (i div 4)) = Some 1
              then (if is_edge im (floodFill im) (i div 4) then 60 else 0)
              else data im ! i)"
  using clear_background_nth[OF assms] soften_edges_nth[OF assms]
  by (simp_all add: segment_def Let_def)






text \<open>
  Claim C6. For every decoded image the mask computed by the fill has one entry per
  pixel; a pixel is marked 1 (background) exactly when it belongs to the region grown
  from the whitish border pixels through whitish 4-neighbours, 2 (foreground) exactly
  when it was reached and is not whitish, and stays 0 exactly when it was never
  reached. On an RGBA buffer every pixel not marked 1, reached or not, keeps its alpha.
  Consequently, when no pixel is whitish (every pixel at distance 42 or more from
  white, in particular more than 42), no pixel is marked background and the buffer is
  left as it was.
\<close>

theorem floodFill_background:
  "length (floodFill im) = width im * height im
   \<and> (\<forall>p < width im * height im.
        (floodFill im ! p = 1 \<longleftrightarrow> int p \<in> background im)
      \<and> (floodFill im ! p = 2 \<longleftrightarrow> reached im (int p) \<and> \<not> whitish im (int p))
      \<and> (floodFill im ! p = 0 \<longleftrightarrow> \<not> reached im (int p)))
   \<and> (channels im = 4 \<longrightarrow>
        (\<forall>p < width im * height im. floodFill im ! p \<noteq> 1 \<longrightarrow>
           byte_at (data (segment im)) (p * 4 + 3) = byte_at (data im) (p * 4 + 3)))
   \<and> ((\<forall>p < width im * height im. \<not> whitish im (int p)) \<longrightarrow>
        count_list (floodFill im) 1 = 0 \<and> segment im = im)"
proof -
  have c: "(floodFill im ! p = 1 \<longleftrightarrow> int p \<in> background im)
      \<and> (floodFill im ! p = 2 \<longleftrightarrow> reached im (int p) \<and> \<not> whitish im (int p))
      \<and> (floodFill im ! p = 0 \<longleftrightarrow> \<not> reached im (int p))"
    if "p < width im * height im" for p
  proof -
    have "in_image im (int p)" using that by (simp add: in_image_def del: of_nat_mult)
    from final_mask[OF floodFill_inv this] show ?thesis
      using that by (simp add: mask_at_nth length_floodFill)
  qed
  have a: "byte_at (data (segment im)) (p * 4 + 3) = byte_at (data im) (p * 4 + 3)"
    if ch: "channels im = 4" and p: "p < width im * height im" and n: "floodFill im ! p \<noteq> 1"
    for p
  proof (cases "p * 4 + 3 < length (data im)")
    case True
    have "(p * 4 + 3) div 4 = p" by presburger
    then have "data (segment im) ! (p * 4 + 3) = data im ! (p * 4 + 3)"
      using segment_nth(2)[OF ch True] p n by (simp add: mask_at_nth length_floodFill)
    then show ?thesis using segment_nth(1)[OF ch] by (simp add: byte_at_def)
  next
    case False
    then show ?thesis using segment_nth(1)[OF ch] by (simp add: byte_at_def)
  qed
  have s: "count_list (floodFill im) 1 = 0 \<and> segment im = im"
    if nw: "\<forall>p < width im * height im. \<not> whitish im (int p)"
  proof -
    have n: "floodFill im ! p \<noteq> 1" if "p < width im * height im" for p
      using c[OF that] nw that background_whitish by blast
    then have "1 \<notin> set (floodFill im)"
      by (auto simp: in_set_conv_nth length_floodFill)
    then show ?thesis using n no_background_segment by (simp add: count_list_0_iff)
  qed
  show ?thesis using c a s length_floodFill by blast
qed

text \<open>
  Witness for C6: a 3 x 3 image with a dark centre and a black corner, whose white
  frame is the background, and a 2 x 2 image without any whitish pixel (its second
  pixel is at distance exactly 42 from white).
\<close>

theorem floodFill_background_witness:
  "floodFill framed_image = [1, 1, 1, 1, 2, 1, 1, 1, 2]
   \<and> 0 \<in> background framed_image \<and> 4 \<notin> background framed_image
   \<and> reached framed_image 4 \<and> \<not> whitish framed_image 4
   \<and> channels framed_image = 4
   \<and> byte_at (data (segment framed_image)) 19 = byte_at (data framed_image) 19
   \<and> \<not> whitish dark_image 0 \<and> \<not> whitish dark_image 1
   \<and> \<not> whitish dark_image 2 \<and> \<not> whitish dark_image 3
   \<and> count_list (floodFill dark_image) 1 = 0 \<and> segment dark_image = dark_image"
proof -
  have f: "floodFill framed_image = [1, 1, 1, 1, 2, 1, 1, 1, 2]" by code_simp
  have s: "width framed_image * height framed_image = 9" by (simp add: framed_image_def)
  note t = floodFill_background[of framed_image, unfolded s f]
  have q: "([1, 1, 1, 1, 2, 1, 1, 1, 2] ! p = (1::nat)) = (int p \<in> background framed_image)
      \<and> ([1, 1, 1, 1, 2, 1, 1, 1, 2] ! p = (2::nat))
          = (reached framed_image (int p) \<and> \<not> whitish framed_image (int p))"
    if "p < 9" for p
    using t that by blast
  have a: "0 \<in> background framed_image" using q[of 0] by simp
  have b: "4 \<notin> background framed_image \<and> reached framed_image 4 \<and> \<not> whitish framed_image 4"
    using q[of 4] by simp
  have ch: "channels framed_image = 4" by (simp add: framed_image_def)
  have k0: "[1, 1, 1, 1, 2, 1, 1, 1, 2] ! p \<noteq> (1::nat) \<longrightarrow>
      byte_at (data (segment framed_image)) (p * 4 + 3) = byte_at (data framed_image) (p * 4 + 3)"
    if "p < 9" for p
    using t ch that by blast
  have k: "byte_at (data (segment framed_image)) 19 = byte_at (data framed_image) 19"
    using k0[of 4] by simp
  have d: "\<not> whitish dark_image 0" "\<not> whitish dark_image 1"
    "\<not> whitish dark_image 2" "\<not> whitish dark_image 3"
    by code_simp+
  have "p < width dark_image * height dark_image \<Longrightarrow> p = 0 \<or> p = 1 \<or> p = 2 \<or> p = 3" for p
    by (auto simp: dark_image_def)
  then have "\<forall>p < width dark_image * height dark_image. \<not> whitish dark_image (int p)"
    using d by fastforce
  then have "count_list (floodFill dark_image) 1 = 0 \<and> segment dark_image = dark_image"
    using floodFill_background[of dark_image] by blast
  then show ?thesis using f a b d ch k by simp
qed

text \<open>
  Claim C7. \<open>removeWhiteBackground\<close> never fails outward: for every codec and every
  input buffer it returns a buffer, and when a step inside the \<open>try\<close> block throws (the
  decoding or the encoding chain) the buffer returned is the input itself.
\<close>

theorem removeWhiteBackground_never_fails:
  "(\<exists>out. removeWhiteBackground cd imgBuffer = Inr out)
   \<and> (\<forall>e. removeWhiteBackground_try cd imgBuffer = Inl e \<longrightarrow>
          removeWhiteBackground cd imgBuffer = Inr imgBuffer)
   \<and> (\<forall>e. decode cd imgBuffer = Inl e \<longrightarrow>
          removeWhiteBackground cd imgBuffer = Inr imgBuffer)
   \<and> (\<forall>im e. decode cd imgBuffer = Inr im \<and> encode cd (segment im) = Inl e \<longrightarrow>
          removeWhiteBackground cd imgBuffer = Inr imgBuffer)"
proof -
  have 1: "\<exists>out. removeWhiteBackground cd imgBuffer = Inr out"
    by (cases "removeWhiteBackground_try cd imgBuffer") (simp_all add: removeWhiteBackground_def)
  have 2: "removeWhiteBackground cd imgBuffer = Inr imgBuffer"
    if "removeWhiteBackground_try cd imgBuffer = Inl e" for e
    using that by (simp add: removeWhiteBackground_def)
  have 3: "removeWhiteBackground_try cd imgBuffer = Inl e" if "decode cd imgBuffer = Inl e" for e
    using that by (simp add: removeWhiteBackground_try_def)
  have 4: "removeWhiteBackground_try cd imgBuffer = Inl e"
    if "decode cd imgBuffer = Inr im" "encode cd (segment im) = Inl e" for im e
    using that by (simp add: removeWhiteBackground_try_def)
  show ?thesis using 1 2 3 4 by blast
qed

text \<open>
  Witness for C7: a buffer the decoder rejects, and a buffer whose encoding fails.
\<close>

theorem removeWhiteBackground_never_fails_witness:
  "decode raw_codec [1, 2, 3] = Inl (ImageError ''corrupt header'')
   \<and> removeWhiteBackground raw_codec [1, 2, 3] = Inr [1, 2, 3]
   \<and> decode failing_encoder [1, 1, 9, 9, 9, 255] =
        Inr \<lparr>width = 1, height = 1, channels = 4, data = [9, 9, 9, 255]\<rparr>
   \<and> encode failing_encoder (segment \<lparr>width = 1, height = 1, channels = 4, data = [9, 9, 9, 255]\<rparr>)
        = Inl (ImageError ''trim failed'')
   \<and> removeWhiteBackground failing_encoder [1, 1, 9, 9, 9, 255] = Inr [1, 1, 9, 9, 9, 255]"
proof -
  have a: "decode raw_codec [1, 2, 3] = Inl (ImageError ''corrupt header'')"
    by (simp add: raw_codec_def raw_decode_def)
  have b: "decode failing_encoder [1, 1, 9, 9, 9, 255] =
        Inr \<lparr>width = 1, height = 1, channels = 4, data = [9, 9, 9, 255]\<rparr>"
    by (simp add: failing_encoder_def raw_decode_def)
  have c: "encode failing_encoder (segment \<lparr>width = 1, height = 1, channels = 4, data = [9, 9, 9, 255]\<rparr>)
        = Inl (ImageError ''trim failed'')"
    by (simp add: failing_encoder_def)
  show ?thesis
    using removeWhiteBackground_never_fails[of raw_codec "[1, 2, 3]"]
      removeWhiteBackground_never_fails[of failing_encoder "[1, 1, 9, 9, 9, 255]"] a b c
    by blast
qed




subsection \<open>The scanner\<close>

lemma isDuplicate_iff:
  "isDuplicate allPersons d \<longleftrightarrow> (\<exists>existing \<in> set allPersons. 5 < overlap (description existing) d)"
  by (simp add: isDuplicate_def list_ex_iff)

lemma add_descriptions_full:
  "MAX_PERSONS \<le> length allPersons \<Longrightarrow> add_descriptions idx path ds allPersons = allPersons"
  by (cases ds) simp_all

lemma add_descriptions_duplicate:
  "isDuplicate allPersons d \<Longrightarrow>
   add_descriptions idx path (d # ds) allPersons = add_descriptions idx path ds allPersons"
  by (simp add: add_descriptions_full)

lemma no_duplicates_snoc:
  assumes "no_duplicates ps" and "\<not> isDuplicate ps (description x)"
  shows "no_duplicates (ps @ [x])"
  unfolding no_duplicates_def
proof (intro allI impI)
  fix j i assume j: "j < length (ps @ [x])" and i: "i < j"
  show "overlap (description ((ps @ [x]) ! i)) (description ((ps @ [x]) ! j)) \<le> 5"
  proof (cases "j < length ps")
    case True
    then show ?thesis using assms(1) i by (simp add: no_duplicates_def nth_append)
  next
    case False
    then have jx: "j = length ps" using j by simp
    then have "ps ! i \<in> set ps" using i by simp
    then have "\<not> 5 < overlap (description (ps ! i)) (description x)"
      using assms(2) isDuplicate_iff by blast
    then show ?thesis using jx i by (simp add: nth_append)
  qed
qed

lemma add_descriptions_no_duplicates:
  "no_duplicates allPersons \<Longrightarrow> no_duplicates (add_descriptions idx path ds allPersons)"
proof (induction idx path ds allPersons rule: add_descriptions.induct)
  case (1 idx path allPersons)
  then show ?case by simp
next
  case (2 idx path d ds allPersons)
  show ?case
  proof (cases "MAX_PERSONS \<le> length allPersons")
    case True
    then show ?thesis using "2.prems" by simp
  next
    case room: False
    show ?thesis
    proof (cases "isDuplicate allPersons d")
      case True
      then show ?thesis using room "2.IH"(2) "2.prems" by simp
    next
      case False
      let ?x = "\<lparr>photoIndex = idx, photoPath = path,
          personLabel = ''person'' @ show_nat (length allPersons + 1), description = d\<rparr>"
      have "no_duplicates (allPersons @ [?x])"
        using "2.prems" False by (intro no_duplicates_snoc) simp_all
      then show ?thesis using room False "2.IH"(1) by simp
    qed
  qed
qed

lemma scan_photos_no_duplicates:
  "no_duplicates allPersons \<Longrightarrow> no_duplicates (fst (scan_photos svc vp k n allPersons w))"
proof (induction svc vp k n allPersons w rule: scan_photos.induct)
  case (1 svc k n allPersons w)
  then show ?case by simp
next
  case (2 svc p ps k n allPersons w)
  show ?case
  proof (cases "MAX_PERSONS \<le> length allPersons")
    case True
    then show ?thesis using "2.prems" by simp
  next
    case room: False
    obtain desc w1 where d: "describePersons svc w = (desc, w1)"
      by (cases "describePersons svc w")
    show ?thesis
    proof (cases "desc = []")
      case True
      then show ?thesis using room d "2.IH"(1)[OF room d[symmetric] True "2.prems"] by simp
    next
      case False
      have "no_duplicates (add_descriptions (fst p) (snd p) desc allPersons)"
        using "2.prems" by (rule add_descriptions_no_duplicates)
      from "2.IH"(2)[OF room d[symmetric] False this] show ?thesis
        using room d False by simp
    qed
  qed
qed

lemma scan_multi:
  "2 \<le> length (validPhotos w imagePaths) \<Longrightarrow>
   scanPersonsInPhotos svc imagePaths w =
     scan_photos svc (validPhotos w imagePaths) 0 (length (validPhotos w imagePaths)) [] w"
  by (auto simp: scanPersonsInPhotos_def simp del: scan_photos.simps split: list.splits)

text \<open>
  Claim C4, as amended. The count compares the first 60 characters of both descriptions,
  lower-cased: the words (split on single spaces) of the already-accepted description
  that occur as substrings of the new one. A new description is a duplicate exactly when
  the count exceeds 5 for some accepted person, and then it is dropped: the roster is
  what it would be without it. So in the roster of a scan of two or more photos no
  person's description has a count above 5 with a later person's description.
\<close>

theorem scan_drops_duplicates:
  "(isDuplicate allPersons d \<longleftrightarrow>
      (\<exists>existing \<in> set allPersons. 5 < overlap (description existing) d))
   \<and> (isDuplicate allPersons d \<longrightarrow>
        add_descriptions idx path (d # ds) allPersons = add_descriptions idx path ds allPersons)
   \<and> (2 \<le> length (validPhotos w imagePaths) \<longrightarrow>
        no_duplicates (fst (scanPersonsInPhotos svc imagePaths w)))"
proof -
  have "no_duplicates []" by (simp add: no_duplicates_def)
  then have "no_duplicates (fst (scanPersonsInPhotos svc imagePaths w))"
    if "2 \<le> length (validPhotos w imagePaths)"
    using that by (simp add: scan_multi scan_photos_no_duplicates)
  then show ?thesis
    using isDuplicate_iff add_descriptions_duplicate by blast
qed

text \<open>
  Witness for C4: the second photo shows the same woman, described in nearly the same
  words; the roster keeps one person.
\<close>

theorem scan_drops_duplicates_witness:
  "5 < overlap woman_left woman_again
   \<and> isDuplicate [person1] woman_again
   \<and> add_descriptions 1 ''/uploads/b.jpg'' [woman_again] [person1] = [person1]
   \<and> 2 \<le> length (validPhotos two_photos [''/uploads/a.jpg'', ''/uploads/b.jpg''])
   \<and> fst (scanPersonsInPhotos (answers [woman_left, woman_again])
           [''/uploads/a.jpg'', ''/uploads/b.jpg''] two_photos) = [person1]
   \<and> no_duplicates (fst (scanPersonsInPhotos (answers [woman_left, woman_again])
           [''/uploads/a.jpg'', ''/uploads/b.jpg''] two_photos))"
proof -
  note t = scan_drops_duplicates[of "[person1]" woman_again 1 "''/uploads/b.jpg''" "[]"
      two_photos "[''/uploads/a.jpg'', ''/uploads/b.jpg'']" "answers [woman_left, woman_again]"]
  have o: "5 < overlap woman_left woman_again" by code_simp
  then have d: "isDuplicate [person1] woman_again" using t by (simp add: person1_def)
  then have a: "add_descriptions 1 ''/uploads/b.jpg'' [woman_again] [person1] = [person1]"
    using t by simp
  have v: "2 \<le> length (validPhotos two_photos [''/uploads/a.jpg'', ''/uploads/b.jpg''])"
    by code_simp
  then have n: "no_duplicates (fst (scanPersonsInPhotos (answers [woman_left, woman_again])
           [''/uploads/a.jpg'', ''/uploads/b.jpg''] two_photos))"
    using t by blast
  have s: "fst (scanPersonsInPhotos (answers [woman_left, woman_again])
           [''/uploads/a.jpg'', ''/uploads/b.jpg''] two_photos) = [person1]"
    by code_simp
  show ?thesis using o d a v s n by blast
qed

text \<open>
  Counterexample to C4 as stated: eight words of the new description occur in the
  accepted one (\<open>man\<close> in \<open>woman\<close>, \<open>tan\<close> and \<open>and\<close> in \<open>standing\<close>, ...), so the count
  of the claim exceeds 5, but no word of the accepted description occurs in the new one
  and the scan adds the man as a second person.
\<close>

theorem scan_keeps_claimed_duplicate_counterexample:
  "5 < claimed_overlap woman_left man_right
   \<and> overlap woman_left man_right = 0
   \<and> map description
        (fst (scanPersonsInPhotos (answers [woman_left, man_right])
           [''/uploads/a.jpg'', ''/uploads/b.jpg''] two_photos)) = [woman_left, man_right]"
  by code_simp

subsection \<open>The synthesizer\<close>

lemma removeWhiteBackground_returns: "\<exists>out. removeWhiteBackground cd b = Inr out"
  by (cases "removeWhiteBackground_try cd b") (simp_all add: removeWhiteBackground_def)

lemma find_image_Some:
  "find_image parts = Some d \<Longrightarrow> InlineData d \<in> set parts \<and> 5000 \<le> length d"
  by (induction parts rule: find_image.induct) (auto split: if_splits)

lemma image_of_Some:
  assumes "image_of outcome = Some d"
  shows "5000 \<le> length d
       \<and> (\<exists>response parts rest. outcome = Inr response
             \<and> candidates response = Some parts # rest \<and> InlineData d \<in> set parts)"
proof -
  obtain response where r: "outcome = Inr response"
    using assms by (cases outcome) (simp_all add: image_of_def)
  then obtain parts rest where c: "candidates response = Some parts # rest"
      and f: "find_image parts = Some d"
    using assms by (auto simp: image_of_def split: list.splits option.splits)
  show ?thesis using r c find_image_Some[OF f] by blast
qed

text \<open>One attempt without a usable image: the loop goes on, one more request was sent
  and no file was written.\<close>

lemma chibi_try_miss:
  assumes "image_of (svc IMAGE_MODEL (calls w IMAGE_MODEL)) = None"
  shows "snd (chibi_try svc cd recordId personIndex w) = snd (generateContent svc IMAGE_MODEL w)
       \<and> (\<forall>path. fst (chibi_try svc cd recordId personIndex w) \<noteq> Inr (Returned path))"
proof (cases "svc IMAGE_MODEL (calls w IMAGE_MODEL)")
  case (Inl e)
  then show ?thesis by (simp add: chibi_try_def generateContent_def)
next
  case (Inr response)
  show ?thesis
  proof (cases "candidates response")
    case Nil
    then show ?thesis using Inr by (simp add: chibi_try_def generateContent_def)
  next
    case (Cons c rest)
    show ?thesis
    proof (cases c)
      case None
      then show ?thesis using Inr Cons by (simp add: chibi_try_def generateContent_def)
    next
      case (Some parts)
      then have "find_image parts = None"
        using assms(1) Inr Cons by (simp add: image_of_def)
      then show ?thesis using Inr Cons Some by (simp add: chibi_try_def generateContent_def)
    qed
  qed
qed

lemma chibi_attempts_miss:
  assumes "image_of (svc IMAGE_MODEL (calls w IMAGE_MODEL)) = None" and "attempt \<le> MAX_RETRIES"
  shows "\<exists>w1. chibi_attempts svc cd recordId personIndex attempt w
              = chibi_attempts svc cd recordId personIndex (attempt + 1) w1
            \<and> calls w1 = (calls w)(IMAGE_MODEL := calls w IMAGE_MODEL + 1)
            \<and> files w1 = files w"
proof -
  obtain t w0 where t: "chibi_try svc cd recordId personIndex w = (t, w0)"
    by (cases "chibi_try svc cd recordId personIndex w")
  have w0: "w0 = snd (generateContent svc IMAGE_MODEL w)"
    and nr: "\<And>path. t \<noteq> Inr (Returned path)"
    using chibi_try_miss[where svc = svc and w = w and cd = cd and recordId = recordId
        and personIndex = personIndex] assms(1) t
    by simp_all
  have s: "calls w0 = (calls w)(IMAGE_MODEL := calls w IMAGE_MODEL + 1)" "files w0 = files w"
    using w0 by (simp_all add: generateContent_def)
  have p: "calls (retry_pause a x) = calls x" "files (retry_pause a x) = files x"
    "calls (sleep ms x) = calls x" "files (sleep ms x) = files x" for a ms x
    by (simp_all add: retry_pause_def sleep_def)
  note u = chibi_attempts.simps[of svc cd recordId personIndex attempt w]
  show ?thesis
  proof (cases t)
    case (Inl e)
    let ?w1 = "retry_pause attempt (if err_status e = Some 429 then sleep 4000 w0 else w0)"
    have "chibi_attempts svc cd recordId personIndex attempt w
        = chibi_attempts svc cd recordId personIndex (attempt + 1) ?w1"
      using assms(2) t Inl by (simp add: u)
    moreover have "calls ?w1 = (calls w)(IMAGE_MODEL := calls w IMAGE_MODEL + 1)"
      "files ?w1 = files w"
      using s p by simp_all
    ultimately show ?thesis by blast
  next
    case (Inr res)
    show ?thesis
    proof (cases res)
      case (Returned path)
      then show ?thesis using nr Inr by blast
    next
      case NoCandidate
      have "chibi_attempts svc cd recordId personIndex attempt w
          = chibi_attempts svc cd recordId personIndex (attempt + 1) w0"
        using assms(2) t Inr NoCandidate by (simp add: u)
      then show ?thesis using s by blast
    next
      case NoImage
      have "chibi_attempts svc cd recordId personIndex attempt w
          = chibi_attempts svc cd recordId personIndex (attempt + 1) (retry_pause attempt w0)"
        using assms(2) t Inr NoImage by (simp add: u)
      moreover have "calls (retry_pause attempt w0) = (calls w)(IMAGE_MODEL := calls w IMAGE_MODEL + 1)"
        "files (retry_pause attempt w0) = files w"
        using s p by simp_all
      ultimately show ?thesis by blast
    qed
  qed
qed

text \<open>One attempt with a usable image: the segmented image is written and the path
  returned.\<close>

lemma chibi_attempts_hit:
  assumes "image_of (svc IMAGE_MODEL (calls w IMAGE_MODEL)) = Some d" and "attempt \<le> MAX_RETRIES"
    and "removeWhiteBackground cd d = Inr out"
  shows "chibi_attempts svc cd recordId personIndex attempt w
           = (Some (chibi_path recordId personIndex),
              writeFileSync (chibi_save_path recordId personIndex) out
                (snd (generateContent svc IMAGE_MODEL w)))"
proof -
  obtain response parts rest where r: "svc IMAGE_MODEL (calls w IMAGE_MODEL) = Inr response"
    and c: "candidates response = Some parts # rest" and f: "find_image parts = Some d"
    using assms(1) by (auto simp: image_of_def split: sum.splits list.splits option.splits)
  show ?thesis
    using assms(2,3) r c f
    by (simp add: chibi_attempts.simps[of svc cd recordId personIndex attempt w] chibi_try_def
        generateContent_def chibi_path_def chibi_save_path_def)
qed

lemma chibi_attempts_end:
  "chibi_attempts svc cd recordId personIndex (Suc MAX_RETRIES) w = (None, w)"
  by (simp add: chibi_attempts.simps[of svc cd recordId personIndex "Suc MAX_RETRIES" w])

lemma chibi_attempts_all_miss:
  assumes "\<forall>k. attempt + k \<le> MAX_RETRIES \<longrightarrow>
             image_of (svc IMAGE_MODEL (calls w IMAGE_MODEL + k)) = None"
    and "attempt + n = Suc MAX_RETRIES"
  shows "fst (chibi_attempts svc cd recordId personIndex attempt w) = None
       \<and> files (snd (chibi_attempts svc cd recordId personIndex attempt w)) = files w
       \<and> calls (snd (chibi_attempts svc cd recordId personIndex attempt w)) IMAGE_MODEL
           = calls w IMAGE_MODEL + n"
  using assms
proof (induction n arbitrary: attempt w)
  case 0
  then have "attempt = Suc MAX_RETRIES" by simp
  then show ?case by (simp add: chibi_attempts_end)
next
  case (Suc n)
  then have a: "attempt \<le> MAX_RETRIES" by simp
  have "image_of (svc IMAGE_MODEL (calls w IMAGE_MODEL)) = None"
    using Suc.prems(1) a by (metis add.right_neutral)
  then obtain w1 where w1: "chibi_attempts svc cd recordId personIndex attempt w
              = chibi_attempts svc cd recordId personIndex (attempt + 1) w1"
     "calls w1 = (calls w)(IMAGE_MODEL := calls w IMAGE_MODEL + 1)" "files w1 = files w"
    using a chibi_attempts_miss[where svc = svc and w = w and attempt = attempt and cd = cd
        and recordId = recordId and personIndex = personIndex]
    by blast
  have "\<forall>k. attempt + 1 + k \<le> MAX_RETRIES \<longrightarrow>
             image_of (svc IMAGE_MODEL (calls w1 IMAGE_MODEL + k)) = None"
  proof (intro allI impI)
    fix k assume "attempt + 1 + k \<le> MAX_RETRIES"
    then have "attempt + Suc k \<le> MAX_RETRIES" by simp
    then have "image_of (svc IMAGE_MODEL (calls w IMAGE_MODEL + Suc k)) = None"
      using Suc.prems(1) by blast
    then show "image_of (svc IMAGE_MODEL (calls w1 IMAGE_MODEL + k)) = None"
      by (simp add: w1(2))
  qed
  moreover have "attempt + 1 + n = Suc MAX_RETRIES" using Suc.prems(2) by simp
  ultimately show ?case
    using Suc.IH[of "attempt + 1" w1] w1 by simp
qed

lemma chibi_attempts_first_hit:
  assumes "attempt + k \<le> MAX_RETRIES"
    and "\<forall>j < k. image_of (svc IMAGE_MODEL (calls w IMAGE_MODEL + j)) = None"
    and "image_of (svc IMAGE_MODEL (calls w IMAGE_MODEL + k)) = Some d"
    and "removeWhiteBackground cd d = Inr out"
  shows "fst (chibi_attempts svc cd recordId personIndex attempt w)
           = Some (chibi_path recordId personIndex)
       \<and> files (snd (chibi_attempts svc cd recordId personIndex attempt w))
           = (files w)(chibi_save_path recordId personIndex \<mapsto> out)
       \<and> calls (snd (chibi_attempts svc cd recordId personIndex attempt w)) IMAGE_MODEL
           = calls w IMAGE_MODEL + k + 1"
  using assms(1,2,3)
proof (induction k arbitrary: attempt w)
  case 0
  then have a: "attempt \<le> MAX_RETRIES"
    and i: "image_of (svc IMAGE_MODEL (calls w IMAGE_MODEL)) = Some d"
    by simp_all
  show ?case
    using chibi_attempts_hit[where svc = svc and w = w and attempt = attempt and cd = cd
        and recordId = recordId and personIndex = personIndex and d = d and out = out]
      i a assms(4)
    by (simp add: writeFileSync_def generateContent_def)
next
  case (Suc k)
  then have a: "attempt \<le> MAX_RETRIES" by simp
  have "image_of (svc IMAGE_MODEL (calls w IMAGE_MODEL)) = None"
    using Suc.prems(2) by (metis add.right_neutral zero_less_Suc)
  then obtain w1 where w1: "chibi_attempts svc cd recordId personIndex attempt w
              = chibi_attempts svc cd recordId personIndex (attempt + 1) w1"
     "calls w1 = (calls w)(IMAGE_MODEL := calls w IMAGE_MODEL + 1)" "files w1 = files w"
    using a chibi_attempts_miss[where svc = svc and w = w and attempt = attempt and cd = cd
        and recordId = recordId and personIndex = personIndex]
    by blast
  have 1: "attempt + 1 + k \<le> MAX_RETRIES" using Suc.prems(1) by simp
  have 2: "\<forall>j < k. image_of (svc IMAGE_MODEL (calls w1 IMAGE_MODEL + j)) = None"
  proof (intro allI impI)
    fix j assume "j < k"
    then have "image_of (svc IMAGE_MODEL (calls w IMAGE_MODEL + Suc j)) = None"
      using Suc.prems(2) by (meson Suc_less_eq)
    then show "image_of (svc IMAGE_MODEL (calls w1 IMAGE_MODEL + j)) = None"
      by (simp add: w1(2))
  qed
  have 3: "image_of (svc IMAGE_MODEL (calls w1 IMAGE_MODEL + k)) = Some d"
    using Suc.prems(3) by (simp add: w1(2))
  show ?case
    using Suc.IH[OF 1 2 3] w1 by simp
qed

lemma first_image:
  fixes f :: "nat \<Rightarrow> byte list option"
  assumes "\<exists>k < n. f k \<noteq> None"
  shows "\<exists>k d. k < n \<and> f k = Some d \<and> (\<forall>j < k. f j = None)"
proof -
  define k where "k = (LEAST k. f k \<noteq> None)"
  obtain k0 where k0: "k0 < n" "f k0 \<noteq> None" using assms by blast
  have 1: "f k \<noteq> None"
    unfolding k_def using k0(2) by (rule LeastI[of "\<lambda>k. f k \<noteq> None"])
  have 2: "k \<le> k0"
    unfolding k_def using k0(2) by (rule Least_le[of "\<lambda>k. f k \<noteq> None"])
  have 3: "f j = None" if "j < k" for j
    using that not_less_Least unfolding k_def by blast
  show ?thesis using 1 2 3 k0(1) by (metis le_less_trans option.exhaust)
qed

lemma generateSingleChibi_cases:
  fixes svc cd photoPath' desc recordId personIndex w
  defines "G \<equiv> generateSingleChibi svc cd photoPath' desc recordId personIndex w"
    and "img \<equiv> (\<lambda>k. image_of (svc IMAGE_MODEL (calls w IMAGE_MODEL + k)))"
  shows "\<not> existsSync w (public_path photoPath') \<Longrightarrow> G = (None, w)"
    and "existsSync w (public_path photoPath') \<Longrightarrow> \<forall>k < Suc MAX_RETRIES. img k = None \<Longrightarrow>
           fst G = None \<and> files (snd G) = files w
           \<and> calls (snd G) IMAGE_MODEL = calls w IMAGE_MODEL + Suc MAX_RETRIES"
    and "existsSync w (public_path photoPath') \<Longrightarrow> k < Suc MAX_RETRIES \<Longrightarrow>
           \<forall>j < k. img j = None \<Longrightarrow> img k = Some d \<Longrightarrow> removeWhiteBackground cd d = Inr out \<Longrightarrow>
           fst G = Some (chibi_path recordId personIndex)
           \<and> files (snd G) = (files w)(chibi_save_path recordId personIndex \<mapsto> out)
           \<and> calls (snd G) IMAGE_MODEL = calls w IMAGE_MODEL + k + 1"
proof -
  show "\<not> existsSync w (public_path photoPath') \<Longrightarrow> G = (None, w)"
    by (simp add: G_def generateSingleChibi_def)
next
  assume e: "existsSync w (public_path photoPath')" and n: "\<forall>k < Suc MAX_RETRIES. img k = None"
  have "\<forall>k. 0 + k \<le> MAX_RETRIES \<longrightarrow> image_of (svc IMAGE_MODEL (calls w IMAGE_MODEL + k)) = None"
    using n by (simp add: img_def less_Suc_eq_le)
  then have "fst (chibi_attempts svc cd recordId personIndex 0 w) = None
       \<and> files (snd (chibi_attempts svc cd recordId personIndex 0 w)) = files w
       \<and> calls (snd (chibi_attempts svc cd recordId personIndex 0 w)) IMAGE_MODEL
           = calls w IMAGE_MODEL + Suc MAX_RETRIES"
    by (intro chibi_attempts_all_miss) simp_all
  then show "fst G = None \<and> files (snd G) = files w
      \<and> calls (snd G) IMAGE_MODEL = calls w IMAGE_MODEL + Suc MAX_RETRIES"
    using e by (simp add: G_def generateSingleChibi_def)
next
  assume e: "existsSync w (public_path photoPath')" and k: "k < Suc MAX_RETRIES"
    and n: "\<forall>j < k. img j = None" and h: "img k = Some d"
    and o: "removeWhiteBackground cd d = Inr out"
  have 1: "0 + k \<le> MAX_RETRIES" using k by simp
  have 2: "\<forall>j < k. image_of (svc IMAGE_MODEL (calls w IMAGE_MODEL + j)) = None"
    using n by (simp add: img_def)
  have 3: "image_of (svc IMAGE_MODEL (calls w IMAGE_MODEL + k)) = Some d"
    using h by (simp add: img_def)
  have "fst (chibi_attempts svc cd recordId personIndex 0 w)
           = Some (chibi_path recordId personIndex)
       \<and> files (snd (chibi_attempts svc cd recordId personIndex 0 w))
           = (files w)(chibi_save_path recordId personIndex \<mapsto> out)
       \<and> calls (snd (chibi_attempts svc cd recordId personIndex 0 w)) IMAGE_MODEL
           = calls w IMAGE_MODEL + k + 1"
    using 1 2 3 o by (rule chibi_attempts_first_hit)
  then show "fst G = Some (chibi_path recordId personIndex)
      \<and> files (snd G) = (files w)(chibi_save_path recordId personIndex \<mapsto> out)
      \<and> calls (snd G) IMAGE_MODEL = calls w IMAGE_MODEL + k + 1"
    using e by (simp add: G_def generateSingleChibi_def)
qed

lemma chibi_path_nonempty: "chibi_path recordId personIndex \<noteq> []"
  by (simp add: chibi_path_def)

lemma generateSingleChibi_path:
  assumes "fst (generateSingleChibi svc cd photoPath' desc recordId personIndex w) = Some path"
  shows "path = chibi_path recordId personIndex"
proof (cases "existsSync w (public_path photoPath')")
  case False
  then show ?thesis using assms generateSingleChibi_cases(1) by (metis fst_conv option.distinct(1))
next
  case True
  let ?img = "\<lambda>k. image_of (svc IMAGE_MODEL (calls w IMAGE_MODEL + k))"
  show ?thesis
  proof (cases "\<exists>k < Suc MAX_RETRIES. ?img k \<noteq> None")
    case False
    then have "\<forall>k < Suc MAX_RETRIES. ?img k = None" by blast
    then show ?thesis
      using assms True generateSingleChibi_cases(2)[where svc = svc and w = w
          and photoPath' = photoPath' and cd = cd and desc = desc and recordId = recordId
          and personIndex = personIndex]
      by simp
  next
    case ex: True
    from first_image[of "Suc MAX_RETRIES" ?img] ex obtain k d where k: "k < Suc MAX_RETRIES" "?img k = Some d"
      "\<forall>j < k. ?img j = None" by blast
    obtain out where o: "removeWhiteBackground cd d = Inr out"
      using removeWhiteBackground_returns by blast
    show ?thesis
      using assms True k o generateSingleChibi_cases(3)[where svc = svc and w = w
          and photoPath' = photoPath' and cd = cd and desc = desc and recordId = recordId
          and personIndex = personIndex and k = k and d = d and out = out]
      by simp
  qed
qed

text \<open>
  Claim C8. For every call of \<open>generateSingleChibi\<close>: at most \<open>MAX_RETRIES + 1 = 3\<close>
  requests are sent to the image model. The result is the public path
  \<open>/uploads/chibi-{recordId}-{personIndex}.png\<close> exactly when the source photo exists
  and one of the three attempts yields inline image data of at least 5000 bytes (5 KB);
  the segmented image of that attempt is then the content of the file of that name
  under the uploads directory. In every other case (the photo is missing, an attempt
  throws, no attempt returns an image part, every image is below the floor) the result
  is \<open>null\<close>; no exception leaves the function.
\<close>

theorem generateSingleChibi_outcome:
  "calls (snd (generateSingleChibi svc cd photoPath' desc recordId personIndex w)) IMAGE_MODEL
     \<le> calls w IMAGE_MODEL + (MAX_RETRIES + 1)
   \<and> MAX_RETRIES + 1 = 3
   \<and> fst (generateSingleChibi svc cd photoPath' desc recordId personIndex w)
       = (if existsSync w (public_path photoPath')
             \<and> (\<exists>k < 3. image_of (svc IMAGE_MODEL (calls w IMAGE_MODEL + k)) \<noteq> None)
          then Some (''/uploads/chibi-'' @ recordId @ ''-'' @ show_nat personIndex @ ''.png'')
          else None)
   \<and> (fst (generateSingleChibi svc cd photoPath' desc recordId personIndex w) \<noteq> None \<longrightarrow>
        (\<exists>k d out. k < 3
           \<and> image_of (svc IMAGE_MODEL (calls w IMAGE_MODEL + k)) = Some d
           \<and> 5000 \<le> length d
           \<and> removeWhiteBackground cd d = Inr out
           \<and> files (snd (generateSingleChibi svc cd photoPath' desc recordId personIndex w))
                (''public/uploads/chibi-'' @ recordId @ ''-'' @ show_nat personIndex @ ''.png'')
              = Some out))"
proof -
  let ?G = "generateSingleChibi svc cd photoPath' desc recordId personIndex w"
  let ?img = "\<lambda>k. image_of (svc IMAGE_MODEL (calls w IMAGE_MODEL + k))"
  note c = generateSingleChibi_cases[where svc = svc and w = w
          and photoPath' = photoPath' and cd = cd and desc = desc and recordId = recordId
          and personIndex = personIndex]
  have m: "Suc MAX_RETRIES = 3" by (simp add: MAX_RETRIES_def)
  have pth: "chibi_path recordId personIndex
      = ''/uploads/chibi-'' @ recordId @ ''-'' @ show_nat personIndex @ ''.png''"
    by (simp add: chibi_path_def chibi_filename_def)
  have sv: "chibi_save_path recordId personIndex
      = ''public/uploads/chibi-'' @ recordId @ ''-'' @ show_nat personIndex @ ''.png''"
    by (simp add: chibi_save_path_def chibi_filename_def UPLOADS_DIR_def)
  consider (missing) "\<not> existsSync w (public_path photoPath')"
    | (none) "existsSync w (public_path photoPath')" "\<forall>k < 3. ?img k = None"
    | (some) "existsSync w (public_path photoPath')" "\<exists>k < 3. ?img k \<noteq> None"
    by blast
  then show ?thesis
  proof cases
    case missing
    then have "?G = (None, w)" by (rule c(1))
    then show ?thesis using missing m by simp
  next
    case none
    then have "fst ?G = None \<and> files (snd ?G) = files w
           \<and> calls (snd ?G) IMAGE_MODEL = calls w IMAGE_MODEL + Suc MAX_RETRIES"
      using c(2) m by simp
    then show ?thesis using none m by simp
  next
    case some
    from first_image[of 3 ?img] some(2) obtain k d where k: "k < 3" "?img k = Some d"
      "\<forall>j < k. ?img j = None" by blast
    obtain out where o: "removeWhiteBackground cd d = Inr out"
      using removeWhiteBackground_returns by blast
    have r: "fst ?G = Some (chibi_path recordId personIndex)
           \<and> files (snd ?G) = (files w)(chibi_save_path recordId personIndex \<mapsto> out)
           \<and> calls (snd ?G) IMAGE_MODEL = calls w IMAGE_MODEL + k + 1"
      using c(3)[where k = k and d = d and out = out] some(1) k o m by simp
    have l: "5000 \<le> length d" using image_of_Some[OF k(2)] by blast
    have "\<exists>k d out. k < 3 \<and> ?img k = Some d \<and> 5000 \<le> length d
           \<and> removeWhiteBackground cd d = Inr out
           \<and> files (snd ?G)
                (''public/uploads/chibi-'' @ recordId @ ''-'' @ show_nat personIndex @ ''.png'')
              = Some out"
      using k(1,2) l o r unfolding sv by (intro exI[of _ k] exI[of _ d] exI[of _ out]) simp
    moreover have "fst ?G = Some (''/uploads/chibi-'' @ recordId @ ''-'' @ show_nat personIndex @ ''.png'')"
      using r pth by simp
    moreover have "calls (snd ?G) IMAGE_MODEL \<le> calls w IMAGE_MODEL + (MAX_RETRIES + 1)"
      using r k(1) m by simp
    ultimately show ?thesis using some m by simp
  qed
qed

text \<open>
  Witness for C8: the first attempt returns text only, the second an image of 10 bytes,
  the third an image of 5000 bytes, which is stored; a missing photo gives \<open>null\<close>.
\<close>

theorem generateSingleChibi_outcome_witness:
  "existsSync one_photo (public_path ''/uploads/a.jpg'')
   \<and> image_of (third_time_lucky IMAGE_MODEL 0) = None
   \<and> image_of (third_time_lucky IMAGE_MODEL 1) = None
   \<and> image_of (third_time_lucky IMAGE_MODEL 2) = Some big_image
   \<and> length big_image = 5000
   \<and> fst (generateSingleChibi third_time_lucky no_decoder ''/uploads/a.jpg'' ''a tall man''
          ''42'' 1 one_photo) = Some ''/uploads/chibi-42-1.png''
   \<and> files (snd (generateSingleChibi third_time_lucky no_decoder ''/uploads/a.jpg''
          ''a tall man'' ''42'' 1 one_photo)) ''public/uploads/chibi-42-1.png'' = Some big_image
   \<and> calls (snd (generateSingleChibi third_time_lucky no_decoder ''/uploads/a.jpg''
          ''a tall man'' ''42'' 1 one_photo)) IMAGE_MODEL = 3
   \<and> \<not> existsSync one_photo (public_path ''/uploads/missing.jpg'')
   \<and> fst (generateSingleChibi third_time_lucky no_decoder ''/uploads/missing.jpg''
          ''a tall man'' ''42'' 1 one_photo) = None"
proof -
  let ?G = "generateSingleChibi third_time_lucky no_decoder ''/uploads/a.jpg'' ''a tall man''
          ''42'' 1 one_photo"
  note t = generateSingleChibi_outcome[of third_time_lucky no_decoder "''/uploads/a.jpg''"
      "''a tall man''" "''42''" 1 one_photo]
  note t' = generateSingleChibi_outcome[of third_time_lucky no_decoder "''/uploads/missing.jpg''"
      "''a tall man''" "''42''" 1 one_photo]
  have e: "existsSync one_photo (public_path ''/uploads/a.jpg'')"
    by (simp add: existsSync_def one_photo_def public_path_def strip_slash_def)
  have ne: "\<not> existsSync one_photo (public_path ''/uploads/missing.jpg'')"
    by (simp add: existsSync_def one_photo_def public_path_def strip_slash_def)
  have c0: "calls one_photo IMAGE_MODEL = 0" by (simp add: one_photo_def)
  have i0: "image_of (third_time_lucky IMAGE_MODEL 0) = None"
    and i1: "image_of (third_time_lucky IMAGE_MODEL 1) = None"
    and i2: "image_of (third_time_lucky IMAGE_MODEL 2) = Some big_image"
    by (simp_all add: image_of_def third_time_lucky_def parts_response_def big_image_def)
  have l: "length big_image = 5000" by (simp add: big_image_def)
  have ex: "\<exists>k < 3. image_of (third_time_lucky IMAGE_MODEL (calls one_photo IMAGE_MODEL + k)) \<noteq> None"
  proof -
    have a: "calls one_photo IMAGE_MODEL + 2 = 2" using c0 by simp
    have "image_of (third_time_lucky IMAGE_MODEL (calls one_photo IMAGE_MODEL + 2)) \<noteq> None"
      unfolding a i2 by simp
    moreover have "(2::nat) < 3" by simp
    ultimately show ?thesis by blast
  qed
  have sn: "show_nat (Suc 0) = ''1''" by code_simp
  have r: "fst ?G = Some ''/uploads/chibi-42-1.png''"
    using t e ex by (simp add: sn del: show_nat.simps)
  then obtain k d out where k: "k < 3"
    "image_of (third_time_lucky IMAGE_MODEL (calls one_photo IMAGE_MODEL + k)) = Some d"
    "removeWhiteBackground no_decoder d = Inr out"
    "files (snd ?G) (''public/uploads/chibi-'' @ ''42'' @ ''-'' @ show_nat 1 @ ''.png'') = Some out"
    using t by auto
  have "k = 0 \<or> k = 1 \<or> k = 2" using k(1) by auto
  then have "d = big_image" using k(2) i0 i1 i2 c0 by auto
  moreover have "out = d"
    using k(3) by (simp add: removeWhiteBackground_def removeWhiteBackground_try_def no_decoder_def)
  ultimately have f: "files (snd ?G) ''public/uploads/chibi-42-1.png'' = Some big_image"
    using k(4) by (simp add: sn del: show_nat.simps)
  have c: "calls (snd ?G) IMAGE_MODEL = 3" by code_simp
  have n: "fst (generateSingleChibi third_time_lucky no_decoder ''/uploads/missing.jpg''
          ''a tall man'' ''42'' 1 one_photo) = None"
    using t' ne by simp
  show ?thesis using e i0 i1 i2 l r f c ne n by blast
qed

subsection \<open>The orchestrator\<close>

lemma length_label_persons: "length (label_persons idx path ds) = length ds"
  by (simp add: label_persons_def)

lemma add_descriptions_bound:
  "length allPersons \<le> MAX_PERSONS \<Longrightarrow>
   length (add_descriptions idx path ds allPersons) \<le> MAX_PERSONS"
proof (induction idx path ds allPersons rule: add_descriptions.induct)
  case (1 idx path allPersons)
  then show ?case by simp
next
  case (2 idx path d ds allPersons)
  show ?case
  proof (cases "MAX_PERSONS \<le> length allPersons")
    case True
    then show ?thesis using "2.prems" by simp
  next
    case room: False
    show ?thesis
    proof (cases "isDuplicate allPersons d")
      case True
      then show ?thesis using room "2.IH"(2) "2.prems" by simp
    next
      case False
      then show ?thesis using room "2.IH"(1) by simp
    qed
  qed
qed

lemma scan_photos_bound:
  "length allPersons \<le> MAX_PERSONS \<Longrightarrow>
   length (fst (scan_photos svc vp k n allPersons w)) \<le> MAX_PERSONS"
proof (induction svc vp k n allPersons w rule: scan_photos.induct)
  case (1 svc k n allPersons w)
  then show ?case by simp
next
  case (2 svc p ps k n allPersons w)
  show ?case
  proof (cases "MAX_PERSONS \<le> length allPersons")
    case True
    then show ?thesis using "2.prems" by simp
  next
    case room: False
    obtain desc w1 where d: "describePersons svc w = (desc, w1)"
      by (cases "describePersons svc w")
    show ?thesis
    proof (cases "desc = []")
      case True
      then show ?thesis using room d "2.IH"(1)[OF room d[symmetric] True "2.prems"] by simp
    next
      case False
      have "length (add_descriptions (fst p) (snd p) desc allPersons) \<le> MAX_PERSONS"
        using "2.prems" by (rule add_descriptions_bound)
      from "2.IH"(2)[OF room d[symmetric] False this] show ?thesis
        using room d False by simp
    qed
  qed
qed

lemma scanPersonsInPhotos_bound:
  "length (fst (scanPersonsInPhotos svc imagePaths w)) \<le> MAX_PERSONS"
proof (cases "validPhotos w imagePaths")
  case Nil
  then show ?thesis by (simp add: scanPersonsInPhotos_def)
next
  case (Cons p rest)
  show ?thesis
  proof (cases rest)
    case Nil
    then show ?thesis
      using Cons
      by (simp add: scanPersonsInPhotos_def length_label_persons split: prod.splits)
  next
    case (Cons q rest')
    then have "2 \<le> length (validPhotos w imagePaths)" using \<open>validPhotos w imagePaths = p # rest\<close> by simp
    then show ?thesis
      using scan_photos_bound[of "[]"] by (simp add: scan_multi del: scan_photos.simps)
  qed
qed

lemma length_chibi_outcomes:
  "length (chibi_outcomes svc cd recordId ps i n w) = length ps"
  by (induction ps arbitrary: i w) (auto split: prod.splits)

lemma chibi_loop_results:
  "fst (chibi_loop svc cd recordId ps i n results w)
     = results @ map the (filter (\<lambda>r. r \<noteq> None) (chibi_outcomes svc cd recordId ps i n w))"
proof (induction ps arbitrary: i results w)
  case Nil
  show ?case by simp
next
  case (Cons p ps)
  obtain imgPath w1 where g:
    "generateSingleChibi svc cd (photoPath p) (description p) recordId (i + 1) w = (imgPath, w1)"
    by (cases "generateSingleChibi svc cd (photoPath p) (description p) recordId (i + 1) w")
  show ?case
  proof (cases imgPath)
    case None
    then show ?thesis using g Cons.IH by simp
  next
    case (Some path)
    then have "path = chibi_path recordId (i + 1)"
      using g generateSingleChibi_path[where svc = svc and cd = cd and w = w
          and photoPath' = "photoPath p" and desc = "description p" and recordId = recordId
          and personIndex = "i + 1" and path = path]
      by simp
    then have "path \<noteq> []" using chibi_path_nonempty by simp
    then show ?thesis using g Some Cons.IH by simp
  qed
qed

text \<open>
  Claim C1. For every run of \<open>generateAllChibis\<close>: the roster of the Scanner has at most
  \<open>MAX_PERSONS = 3\<close> persons; the Synthesizer is run for every person of the roster, in
  order, whatever it returned for the persons before; the list returned holds exactly
  the results that are not \<open>null\<close>, in roster order, so its length is between 0 and the
  roster size; an empty roster gives the empty list.
\<close>

theorem generateAllChibis_results:
  "length (fst (scanPersonsInPhotos svc imagePaths w)) \<le> MAX_PERSONS
   \<and> MAX_PERSONS = 3
   \<and> length (chibi_outcomes svc cd recordId (fst (scanPersonsInPhotos svc imagePaths w)) 0
         (length (fst (scanPersonsInPhotos svc imagePaths w)))
         (snd (scanPersonsInPhotos svc imagePaths w)))
       = length (fst (scanPersonsInPhotos svc imagePaths w))
   \<and> fst (generateAllChibis svc cd imagePaths recordId w)
       = map the (filter (\<lambda>r. r \<noteq> None)
           (chibi_outcomes svc cd recordId (fst (scanPersonsInPhotos svc imagePaths w)) 0
              (length (fst (scanPersonsInPhotos svc imagePaths w)))
              (snd (scanPersonsInPhotos svc imagePaths w))))
   \<and> length (fst (generateAllChibis svc cd imagePaths recordId w))
       \<le> length (fst (scanPersonsInPhotos svc imagePaths w))
   \<and> (fst (scanPersonsInPhotos svc imagePaths w) = [] \<longrightarrow>
        fst (generateAllChibis svc cd imagePaths recordId w) = [])"
proof -
  obtain persons w1 where s: "scanPersonsInPhotos svc imagePaths w = (persons, w1)"
    by (cases "scanPersonsInPhotos svc imagePaths w")
  let ?out = "chibi_outcomes svc cd recordId persons 0 (length persons) w1"
  have b: "length persons \<le> MAX_PERSONS"
    using scanPersonsInPhotos_bound[of svc imagePaths w] s by simp
  have l: "length ?out = length persons" by (rule length_chibi_outcomes)
  have r: "fst (generateAllChibis svc cd imagePaths recordId w)
      = map the (filter (\<lambda>r. r \<noteq> None) ?out)"
  proof (cases "persons = []")
    case True
    then show ?thesis using s by (simp add: generateAllChibis_def)
  next
    case False
    then show ?thesis
      using s chibi_loop_results[of svc cd recordId persons 0 "length persons" "[]" w1]
      by (simp add: generateAllChibis_def)
  qed
  have "length (map the (filter (\<lambda>r. r \<noteq> None) ?out)) \<le> length ?out"
    by simp
  then have le: "length (fst (generateAllChibis svc cd imagePaths recordId w)) \<le> length persons"
    using r l by simp
  have e: "persons = [] \<Longrightarrow> fst (generateAllChibis svc cd imagePaths recordId w) = []"
    using r by simp
  show ?thesis using s b l r le e by (simp add: MAX_PERSONS_def)
qed

text \<open>
  Witness for C1: two photos with two persons; all three attempts for the first person
  return no image, the first attempt for the second person succeeds, and the list
  returned holds the second person's path alone. Without photos the list is empty.
\<close>

theorem generateAllChibis_results_witness:
  "map description
      (fst (scanPersonsInPhotos pipeline_service [''/uploads/a.jpg'', ''/uploads/b.jpg''] two_photos))
     = [woman_left, man_right]
   \<and> chibi_outcomes pipeline_service no_decoder ''42''
        (fst (scanPersonsInPhotos pipeline_service [''/uploads/a.jpg'', ''/uploads/b.jpg''] two_photos))
        0 2
        (snd (scanPersonsInPhotos pipeline_service [''/uploads/a.jpg'', ''/uploads/b.jpg''] two_photos))
     = [None, Some ''/uploads/chibi-42-2.png'']
   \<and> fst (generateAllChibis pipeline_service no_decoder [''/uploads/a.jpg'', ''/uploads/b.jpg'']
          ''42'' two_photos) = [''/uploads/chibi-42-2.png'']
   \<and> fst (scanPersonsInPhotos pipeline_service [] two_photos) = []
   \<and> fst (generateAllChibis pipeline_service no_decoder [] ''42'' two_photos) = []"
proof -
  let ?paths = "[''/uploads/a.jpg'', ''/uploads/b.jpg'']"
  let ?S = "scanPersonsInPhotos pipeline_service ?paths two_photos"
  note t = generateAllChibis_results[of pipeline_service ?paths two_photos no_decoder "''42''"]
  note t0 = generateAllChibis_results[of pipeline_service "[]" two_photos no_decoder "''42''"]
  have d: "map description (fst ?S) = [woman_left, man_right]" by code_simp
  then have n: "length (fst ?S) = 2" by (metis length_map length_Cons list.size(3) numeral_2_eq_2)
  have o: "chibi_outcomes pipeline_service no_decoder ''42'' (fst ?S) 0 2 (snd ?S)
     = [None, Some ''/uploads/chibi-42-2.png'']"
    by code_simp
  have r: "fst (generateAllChibis pipeline_service no_decoder ?paths ''42'' two_photos)
      = [''/uploads/chibi-42-2.png'']"
    using t unfolding n o by simp
  have e: "fst (scanPersonsInPhotos pipeline_service [] two_photos) = []"
    by (simp add: scanPersonsInPhotos_def validPhotos_def)
  then have e': "fst (generateAllChibis pipeline_service no_decoder [] ''42'' two_photos) = []"
    using t0 by blast
  show ?thesis using d o r e e' by blast
qed

end
